theory Spec2Isabelle
  imports Main
begin

section \<open>The search-code tool: data\<close>

text \<open>
  The tool handler of \<^verbatim>\<open>server.ts\<close> receives the raw tool arguments, validates them
  against \<^verbatim>\<open>inputSchema\<close>, fills in the destructuring defaults and then pages
  through \<^verbatim>\<open>GET /search/code\<close>. Numbers that pass \<^verbatim>\<open>z.number().int()\<close> are
  integers, so every numeric argument is an \<^typ>\<open>int\<close>; an optional argument is an
  \<^typ>\<open>'a option\<close>, with \<^term>\<open>None\<close> for \<^verbatim>\<open>undefined\<close>. Page numbers and counts
  are taken to stay below \<open>2 ^ 53\<close>, where JavaScript numbers are exact.
\<close>

datatype sort_enum = Indexed

datatype order_enum = Asc | Desc

record tool_args =
  q_in :: string
  sort_in :: "sort_enum option"
  order_in :: "order_enum option"
  per_page_in :: "int option"
  page_in :: "int option"
  max_items_in :: "int option"
  max_pages_in :: "int option"
  text_match_in :: "bool option"

text \<open>The constants bound by the destructuring assignment of lines 41 to 46.\<close>

record params =
  q :: string
  sort_by :: "sort_enum option"
  order_by :: "order_enum option"
  per_page :: int
  page :: int
  max_items :: int
  max_pages :: "int option"
  text_match :: "bool option"

text \<open>
  What \<^verbatim>\<open>octokit.request("GET /search/code", ...)\<close> is called with, and what it
  resolves to. Of the response headers the loop reads only whether \<^verbatim>\<open>link\<close> is
  present and matches \<^verbatim>\<open><...>; rel="next"\<close>; that test is the field
  \<open>link_rel_next\<close>. The payload field \<^verbatim>\<open>incomplete_results\<close> may be missing.
\<close>

record request =
  rq_q :: string
  rq_sort :: "sort_enum option"
  rq_order :: "order_enum option"
  rq_per_page :: int
  rq_page :: int
  rq_headers :: "(string \<times> string) list"

record 'a response =
  total_count :: int
  incomplete_results :: "bool option"
  items :: "'a list"
  link_rel_next :: bool

datatype error = ZodError | RequestError int

text \<open>
  The upstream search API is a black box. Within one run every request carries a
  different page number, so a function of the request can answer each call of the run
  independently of the others. A rejected promise is \<^term>\<open>Inl\<close>.
\<close>

type_synonym 'a upstream = "request \<Rightarrow> error + 'a response"

text \<open>The mutable locals of the handler (lines 55 and 56).\<close>

record 'a loop_state =
  collected :: "'a list"
  current :: int
  fetchedPages :: nat
  total :: int
  incomplete :: bool

datatype 'a outcome = Break "'a loop_state" | Continue "'a loop_state" | Throw error

text \<open>What the handler returns: the summary line's three numbers, the JSON payload
  \<^verbatim>\<open>{total, incomplete, items}\<close> and the resource links of the first 50 items.\<close>

record 'a tool_result =
  summary :: "int \<times> nat \<times> nat"
  res_total :: int
  res_incomplete :: bool
  res_items :: "'a list"
  resource_links :: "'a list"

section \<open>The search-code tool: operations\<close>

definition in_range :: "int \<Rightarrow> int option \<Rightarrow> int option \<Rightarrow> bool" where
  "in_range lo hi v =
     (case v of None \<Rightarrow> True
      | Some n \<Rightarrow> lo \<le> n \<and> (case hi of None \<Rightarrow> True | Some h \<Rightarrow> n \<le> h))"

text \<open>\<^verbatim>\<open>inputSchema.parse\<close>: throws a ZodError unless every present field is in its
  declared range; the parsed object has the same fields.\<close>

definition inputSchema_parse :: "tool_args \<Rightarrow> error + tool_args" where
  "inputSchema_parse a =
     (if 1 \<le> length (q_in a)
         \<and> in_range 1 (Some 25) (per_page_in a)
         \<and> in_range 1 None (page_in a)
         \<and> in_range 1 (Some 100) (max_items_in a)
         \<and> in_range 1 None (max_pages_in a)
      then Inr a else Inl ZodError)"

definition or_default :: "'a option \<Rightarrow> 'a \<Rightarrow> 'a" where
  "or_default v d = (case v of None \<Rightarrow> d | Some x \<Rightarrow> x)"

definition destructure :: "tool_args \<Rightarrow> params" where
  "destructure a =
     \<lparr> q = q_in a, sort_by = sort_in a, order_by = order_in a,
       per_page = or_default (per_page_in a) 100,
       page = or_default (page_in a) 1,
       max_items = or_default (max_items_in a) 1000,
       max_pages = max_pages_in a,
       text_match = text_match_in a \<rparr>"

definition hdr :: "params \<Rightarrow> (string \<times> string) list" where
  "hdr p =
     [(''X-GitHub-Api-Version'', ''2022-11-28''),
      (''Accept'', if text_match p = Some True
                   then ''application/vnd.github.v3.text-match+json''
                   else ''application/vnd.github+json'')]"

definition mk_request :: "params \<Rightarrow> int \<Rightarrow> request" where
  "mk_request p n =
     \<lparr> rq_q = q p, rq_sort = sort_by p, rq_order = order_by p,
       rq_per_page = per_page p, rq_page = n, rq_headers = hdr p \<rparr>"

text \<open>Line 59: \<^verbatim>\<open>max_pages && fetchedPages >= max_pages\<close>; 0 is falsy.\<close>

definition page_cap_reached :: "params \<Rightarrow> 'a loop_state \<Rightarrow> bool" where
  "page_cap_reached p s =
     (case max_pages p of None \<Rightarrow> False
      | Some m \<Rightarrow> m \<noteq> 0 \<and> m \<le> int (fetchedPages s))"

text \<open>Lines 65 to 68: the updates made once a page has arrived.\<close>

definition absorb :: "'a response \<Rightarrow> 'a loop_state \<Rightarrow> 'a loop_state" where
  "absorb d s =
     s\<lparr> total := (if fetchedPages s = 0 then total_count d else total s),
        incomplete := (if incomplete s then True else or_default (incomplete_results d) False),
        collected := collected s @ items d,
        fetchedPages := fetchedPages s + 1 \<rparr>"

text \<open>One pass through the body of \<^verbatim>\<open>while (true)\<close>, lines 59 to 77.\<close>

definition body :: "'a upstream \<Rightarrow> params \<Rightarrow> 'a loop_state \<Rightarrow> 'a outcome" where
  "body up p s =
     (if page_cap_reached p s then Break s
      else case up (mk_request p (current s)) of
        Inl e \<Rightarrow> Throw e
      | Inr d \<Rightarrow>
          (let s1 = absorb d s in
           if items d = [] then Break s1
           else if max_items p \<le> int (length (collected s1)) then Break s1
           else if 1000 \<le> length (collected s1)
             then Break (s1\<lparr>collected := take 1000 (collected s1)\<rparr>)
           else if \<not> link_rel_next d then Break s1
           else Continue (s1\<lparr>current := current s1 + 1\<rparr>)))"

function (sequential) loop :: "'a upstream \<Rightarrow> params \<Rightarrow> 'a loop_state \<Rightarrow> error + 'a loop_state" where
  "loop up p s =
     (case body up p s of
        Break s' \<Rightarrow> Inr s'
      | Throw e \<Rightarrow> Inl e
      | Continue s' \<Rightarrow> loop up p s')"
  by pat_completeness auto

termination loop
  by (relation "measure (\<lambda>(up, p, s). nat (max_items p - int (length (collected s))))")
     (auto simp: body_def absorb_def Let_def split: if_splits sum.splits)

text \<open>
  The calls made to \<^verbatim>\<open>octokit.request\<close> during the loop started in state \<open>s\<close>,
  in order, each with what it resolved to. The handler keeps no such log; the list
  records what the loop does, so that properties of "every fetched page" can be stated.
\<close>

function (sequential) calls ::
  "'a upstream \<Rightarrow> params \<Rightarrow> 'a loop_state \<Rightarrow> (request \<times> (error + 'a response)) list" where
  "calls up p s =
     (if page_cap_reached p s then []
      else (mk_request p (current s), up (mk_request p (current s))) #
           (case body up p s of
              Continue s' \<Rightarrow> calls up p s'
            | Break s' \<Rightarrow> []
            | Throw e \<Rightarrow> []))"
  by pat_completeness auto

termination calls
  by (relation "measure (\<lambda>(up, p, s). nat (max_items p - int (length (collected s))))")
     (auto simp: body_def absorb_def Let_def split: if_splits sum.splits)

definition init :: "params \<Rightarrow> 'a loop_state" where
  "init p = \<lparr> collected = [], current = page p, fetchedPages = 0, total = 0, incomplete = False \<rparr>"

text \<open>The paging loop of the handler, from its initial state (lines 55 to 78).\<close>

definition aggregate :: "'a upstream \<Rightarrow> params \<Rightarrow> error + 'a loop_state" where
  "aggregate up p = loop up p (init p)"

text \<open>Lines 80 to 97.\<close>

definition respond :: "'a loop_state \<Rightarrow> 'a tool_result" where
  "respond s =
     \<lparr> summary = (total s, length (collected s), fetchedPages s),
       res_total = total s, res_incomplete = incomplete s, res_items = collected s,
       resource_links = take 50 (collected s) \<rparr>"

text \<open>The handler registered for \<^verbatim>\<open>search-code\<close> (lines 40 to 98).\<close>

definition search_code :: "'a upstream \<Rightarrow> tool_args \<Rightarrow> error + 'a tool_result" where
  "search_code up a =
     (case inputSchema_parse a of
        Inl e \<Rightarrow> Inl e
      | Inr a' \<Rightarrow>
          (case aggregate up (destructure a') of
             Inl e \<Rightarrow> Inl e
           | Inr s \<Rightarrow> Inr (respond s)))"

text \<open>The upstream calls of one invocation of the handler: none when validation throws.\<close>

definition fetched :: "'a upstream \<Rightarrow> tool_args \<Rightarrow> (request \<times> (error + 'a response)) list" where
  "fetched up a =
     (case inputSchema_parse a of
        Inl e \<Rightarrow> []
      | Inr a' \<Rightarrow> calls up (destructure a') (init (destructure a')))"

section \<open>Upstream sources and arguments used in the examples\<close>

text \<open>
  A source with finitely many pages: page \<open>n\<close> (counted from 1) holds the \<open>n\<close>-th list
  of \<open>pgs\<close>, every page but the last carries a \<^verbatim>\<open>rel="next"\<close> link, a page number
  out of range yields an empty page, and \<^verbatim>\<open>total_count\<close> is the number of items in
  all pages.
\<close>

definition paged_source :: "'a list list \<Rightarrow> 'a upstream" where
  "paged_source pgs rq =
     Inr \<lparr> total_count = int (length (concat pgs)),
           incomplete_results = Some False,
           items = (if 1 \<le> rq_page rq \<and> rq_page rq \<le> int (length pgs)
                    then pgs ! nat (rq_page rq - 1) else []),
           link_rel_next = (rq_page rq < int (length pgs)) \<rparr>"

text \<open>Tool arguments with only the query given.\<close>

definition only_q :: "string \<Rightarrow> tool_args" where
  "only_q s =
     \<lparr> q_in = s, sort_in = None, order_in = None, per_page_in = None, page_in = None,
       max_items_in = None, max_pages_in = None, text_match_in = None \<rparr>"

text \<open>
  A source that replays a fixed list of outcomes, one per page number; past the end of
  the list it answers with an empty page.
\<close>

definition scripted_source :: "(error + 'a response) list \<Rightarrow> 'a upstream" where
  "scripted_source rs rq =
     (if 1 \<le> rq_page rq \<and> rq_page rq \<le> int (length rs) then rs ! nat (rq_page rq - 1)
      else Inr \<lparr> total_count = 0, incomplete_results = None, items = [], link_rel_next = False \<rparr>)"

text \<open>
  A source that never runs dry: every page is full, holding as many items as the
  request's \<^verbatim>\<open>per_page\<close>, and carries a \<^verbatim>\<open>rel="next"\<close> link.
\<close>

definition full_pages_source :: "nat upstream" where
  "full_pages_source rq =
     Inr \<lparr> total_count = 5000, incomplete_results = Some False,
           items = replicate (nat (rq_per_page rq)) 0,
           link_rel_next = True \<rparr>"

text \<open>Two scripts: the first page reports an incomplete result set and a count that the
  second page contradicts; and a first page followed by a failing request.\<close>

definition flag_then_clear :: "(error + nat response) list" where
  "flag_then_clear =
     [Inr \<lparr> total_count = 3, incomplete_results = Some True, items = [1], link_rel_next = True \<rparr>,
      Inr \<lparr> total_count = 9, incomplete_results = Some False, items = [2], link_rel_next = False \<rparr>]"

definition fail_second :: "(error + nat response) list" where
  "fail_second =
     [Inr \<lparr> total_count = 3, incomplete_results = None, items = [1], link_rel_next = True \<rparr>,
      Inl (RequestError 403)]"

text \<open>The loop state after the first page of either script.\<close>

definition after_first :: "bool \<Rightarrow> nat loop_state" where
  "after_first inc =
     \<lparr> collected = [1], current = 2, fetchedPages = 1, total = 3, incomplete = inc \<rparr>"

text \<open>The page bound of \<open>p\<close>, if any, is not reached within \<open>n\<close> fetches.\<close>

definition uncapped :: "params \<Rightarrow> nat \<Rightarrow> bool" where
  "uncapped p n = (case max_pages p of None \<Rightarrow> True | Some m \<Rightarrow> m = 0 \<or> int n \<le> m)"

section \<open>The session-aware transport map\<close>

text \<open>
  \<^verbatim>\<open>const transports: Record<string, StreamableHTTPServerTransport> = {}\<close> is a
  plain object. Its own properties are the registered sessions, a map from session id
  to transport; a transport object is identified by the order of its construction.
  A property read \<^verbatim>\<open>transports[sid]\<close> that finds no own property continues in
  \<^verbatim>\<open>Object.prototype\<close>, whose members are functions or objects and therefore truthy.
\<close>

type_synonym sid = string

type_synonym transport = nat

datatype js_value = TransportObj transport | PrototypeMember

record server_state =
  transports :: "sid \<rightharpoonup> transport"
  constructed :: nat

definition Object_prototype :: "string list" where
  "Object_prototype =
     [''constructor'', ''__defineGetter__'', ''__defineSetter__'', ''hasOwnProperty'',
      ''__lookupGetter__'', ''__lookupSetter__'', ''isPrototypeOf'',
      ''propertyIsEnumerable'', ''toString'', ''valueOf'', ''__proto__'',
      ''toLocaleString'']"

text \<open>The value of \<^verbatim>\<open>transports[k]\<close>; \<^term>\<open>None\<close> is \<^verbatim>\<open>undefined\<close>.\<close>

definition get_property :: "(sid \<rightharpoonup> transport) \<Rightarrow> sid \<Rightarrow> js_value option" where
  "get_property reg k =
     (case reg k of
        Some t \<Rightarrow> Some (TransportObj t)
      | None \<Rightarrow> if k \<in> set Object_prototype then Some PrototypeMember else None)"

text \<open>\<^verbatim>\<open>sid && transports[sid]\<close>: an absent header and the empty string are falsy.\<close>

definition known :: "server_state \<Rightarrow> sid option \<Rightarrow> js_value option" where
  "known st sessionId =
     (case sessionId of
        None \<Rightarrow> None
      | Some k \<Rightarrow> if k = [] then None else get_property (transports st) k)"

text \<open>
  The callbacks handed to each transport built by \<^verbatim>\<open>ensureTransport\<close>. The SDK calls
  \<^verbatim>\<open>onsessioninitialized\<close> with the id that \<^verbatim>\<open>randomUUID()\<close> produced, which is
  never the name of an inherited member.
\<close>

definition onsessioninitialized :: "transport \<Rightarrow> sid \<Rightarrow> server_state \<Rightarrow> server_state" where
  "onsessioninitialized t k st = st\<lparr>transports := (transports st)(k \<mapsto> t)\<rparr>"

definition onsessionclosed :: "sid \<Rightarrow> server_state \<Rightarrow> server_state" where
  "onsessionclosed k st = st\<lparr>transports := (transports st)(k := None)\<rparr>"

text \<open>Lines 128 to 139. A new transport is connected to the server but not registered.\<close>

definition ensureTransport :: "server_state \<Rightarrow> sid option \<Rightarrow> js_value \<times> server_state" where
  "ensureTransport st sessionId =
     (case known st sessionId of
        Some v \<Rightarrow> (v, st)
      | None \<Rightarrow> (TransportObj (constructed st), st\<lparr>constructed := constructed st + 1\<rparr>))"

text \<open>
  What a route handler does with the request: answer it itself with a status and a
  body, hand it to \<^verbatim>\<open>handleRequest\<close> of a transport, or fail with the TypeError of
  calling the missing \<^verbatim>\<open>handleRequest\<close> of a value that is not a transport.
\<close>

datatype reply = Sent nat string | HandleRequest transport | TypeError

definition call_handleRequest :: "js_value \<Rightarrow> reply" where
  "call_handleRequest v =
     (case v of TransportObj t \<Rightarrow> HandleRequest t | PrototypeMember \<Rightarrow> TypeError)"

text \<open>The handlers of lines 141 to 145 and 147 to 152, which share their body.\<close>

definition handleEnsured :: "server_state \<Rightarrow> sid option \<Rightarrow> reply \<times> server_state" where
  "handleEnsured st sessionId =
     (case ensureTransport st sessionId of (v, st') \<Rightarrow> (call_handleRequest v, st'))"

text \<open>Lines 154 to 159.\<close>

definition handleSession :: "server_state \<Rightarrow> sid option \<Rightarrow> reply \<times> server_state" where
  "handleSession st sessionId =
     (case known st sessionId of
        None \<Rightarrow> (Sent 400 ''Invalid session'', st)
      | Some v \<Rightarrow> (call_handleRequest v, st))"

text \<open>
  The routes on \<^verbatim>\<open>/mcp\<close> in the order of their registration. A handler that does not
  call \<^verbatim>\<open>next\<close> ends the chain, so the first route of a method serves it.
\<close>

datatype http_method = GET | POST | DELETE

datatype handler = Ensured | Session

definition routes :: "(http_method \<times> handler) list" where
  "routes = [(POST, Ensured), (GET, Ensured), (GET, Session), (DELETE, Session)]"

definition serve :: "http_method \<Rightarrow> server_state \<Rightarrow> sid option \<Rightarrow> (reply \<times> server_state) option" where
  "serve m st sessionId =
     (case map_of routes m of
        None \<Rightarrow> None
      | Some Ensured \<Rightarrow> Some (handleEnsured st sessionId)
      | Some Session \<Rightarrow> Some (handleSession st sessionId))"

section \<open>The paging loop, one pass at a time\<close>

declare loop.simps [simp del] calls.simps [simp del]

lemma loop_Break: "body up p s = Break s' \<Longrightarrow> loop up p s = Inr s'"
  by (simp add: loop.simps)

lemma loop_Throw: "body up p s = Throw e \<Longrightarrow> loop up p s = Inl e"
  by (simp add: loop.simps)

lemma loop_Continue: "body up p s = Continue s' \<Longrightarrow> loop up p s = loop up p s'"
  by (simp add: loop.simps)

lemma calls_capped: "page_cap_reached p s \<Longrightarrow> calls up p s = []"
  by (simp add: calls.simps)

lemma body_capped: "page_cap_reached p s \<Longrightarrow> body up p s = Break s"
  by (simp add: body_def)

lemma calls_Break:
  "\<not> page_cap_reached p s \<Longrightarrow> body up p s = Break s' \<Longrightarrow>
   calls up p s = [(mk_request p (current s), up (mk_request p (current s)))]"
  by (simp add: calls.simps)

lemma calls_Throw:
  "body up p s = Throw e \<Longrightarrow> calls up p s = [(mk_request p (current s), Inl e)]"
  by (subst calls.simps) (auto simp: body_def Let_def split: if_splits sum.splits)

lemma calls_Continue:
  "body up p s = Continue s' \<Longrightarrow>
   calls up p s = (mk_request p (current s), up (mk_request p (current s))) # calls up p s'"
  by (subst calls.simps) (auto simp: body_def Let_def split: if_splits sum.splits)

text \<open>What a pass that fetched a page did to the state.\<close>

lemma body_Continue_absorb:
  "body up p s = Continue s' \<Longrightarrow>
   \<exists>d. up (mk_request p (current s)) = Inr d \<and> items d \<noteq> [] \<and> link_rel_next d
     \<and> \<not> page_cap_reached p s
     \<and> s' = (absorb d s)\<lparr>current := current s + 1\<rparr>
     \<and> int (length (collected s @ items d)) < max_items p
     \<and> length (collected s @ items d) < 1000"
  by (auto simp: body_def absorb_def Let_def split: if_splits sum.splits)

lemma body_Break_absorb:
  "body up p s = Break s' \<Longrightarrow> \<not> page_cap_reached p s \<Longrightarrow>
   \<exists>d. up (mk_request p (current s)) = Inr d
     \<and> (s' = absorb d s \<or> s' = (absorb d s)\<lparr>collected := take 1000 (collected s @ items d)\<rparr>)"
  by (auto simp: body_def absorb_def Let_def split: if_splits sum.splits)

text \<open>With \<^verbatim>\<open>max_items\<close> at most 1000, as validation and the default make it, no pass
  ends in the truncating branch of line 72.\<close>

lemma body_Break_untruncated:
  "max_items p \<le> 1000 \<Longrightarrow> body up p s = Break s' \<Longrightarrow> \<not> page_cap_reached p s \<Longrightarrow>
   \<exists>d. up (mk_request p (current s)) = Inr d \<and> s' = absorb d s"
  by (auto simp: body_def Let_def split: if_splits sum.splits)

lemma destructure_max_items:
  "inputSchema_parse a = Inr a \<Longrightarrow> 1 \<le> max_items (destructure a) \<and> max_items (destructure a) \<le> 1000"
  by (auto simp: inputSchema_parse_def in_range_def destructure_def or_default_def
      split: if_splits option.splits)

lemma incomplete_absorb: "incomplete (absorb d s) = (incomplete s \<or> incomplete_results d = Some True)"
  by (auto simp: absorb_def or_default_def split: option.splits)

lemma loop_incomplete_mono: "loop up p s = Inr s' \<Longrightarrow> incomplete s \<Longrightarrow> incomplete s'"
proof (induction up p s rule: loop.induct)
  case (1 up p s)
  show ?case
  proof (cases "body up p s")
    case (Break t)
    with "1.prems" have "s' = t" by (simp add: loop_Break)
    show ?thesis
    proof (cases "page_cap_reached p s")
      case True
      with Break \<open>s' = t\<close> "1.prems" show ?thesis by (simp add: body_capped)
    next
      case False
      from body_Break_absorb[OF Break False] \<open>s' = t\<close> "1.prems"(2)
      show ?thesis by (auto simp: incomplete_absorb)
    qed
  next
    case (Continue t)
    from body_Continue_absorb[OF Continue] "1.prems"(2) have "incomplete t"
      by (auto simp: incomplete_absorb)
    moreover from Continue "1.prems"(1) have "loop up p t = Inr s'"
      by (simp add: loop_Continue)
    ultimately show ?thesis using "1.IH"[OF Continue] by simp
  next
    case (Throw e)
    with "1.prems" show ?thesis by (simp add: loop_Throw)
  qed
qed

lemma loop_page_sets_incomplete:
  "loop up p s = Inr s' \<Longrightarrow> (rq, Inr d) \<in> set (calls up p s) \<Longrightarrow>
   incomplete_results d = Some True \<Longrightarrow> incomplete s'"
proof (induction up p s rule: loop.induct)
  case (1 up p s)
  from "1.prems"(2) have nc: "\<not> page_cap_reached p s"
    by (auto simp: calls_capped)
  show ?case
  proof (cases "body up p s")
    case (Break t)
    with "1.prems" have "s' = t" by (simp add: loop_Break)
    from "1.prems"(2) Break nc have "up (mk_request p (current s)) = Inr d"
      by (simp add: calls_Break)
    with body_Break_absorb[OF Break nc] \<open>s' = t\<close> "1.prems"(3)
    show ?thesis by (auto simp: incomplete_absorb)
  next
    case (Continue t)
    from Continue "1.prems"(1) have run: "loop up p t = Inr s'"
      by (simp add: loop_Continue)
    from "1.prems"(2) Continue
    consider "up (mk_request p (current s)) = Inr d" | "(rq, Inr d) \<in> set (calls up p t)"
      by (auto simp: calls_Continue)
    then show ?thesis
    proof cases
      case 1
      with body_Continue_absorb[OF Continue] "1.prems"(3) have "incomplete t"
        by (auto simp: incomplete_absorb)
      with run show ?thesis by (rule loop_incomplete_mono)
    next
      case 2
      with "1.IH"[OF Continue run] "1.prems"(3) show ?thesis by simp
    qed
  next
    case (Throw e)
    with "1.prems" show ?thesis by (simp add: loop_Throw)
  qed
qed

lemma loop_incomplete_only_if:
  "loop up p s = Inr s' \<Longrightarrow> incomplete s' \<Longrightarrow>
   incomplete s \<or> (\<exists>rq d. (rq, Inr d) \<in> set (calls up p s) \<and> incomplete_results d = Some True)"
proof (induction up p s rule: loop.induct)
  case (1 up p s)
  show ?case
  proof (cases "body up p s")
    case (Break t)
    with "1.prems" have "s' = t" by (simp add: loop_Break)
    show ?thesis
    proof (cases "page_cap_reached p s")
      case True
      with Break \<open>s' = t\<close> "1.prems" show ?thesis by (simp add: body_capped)
    next
      case False
      from body_Break_absorb[OF Break False] \<open>s' = t\<close> "1.prems"(2)
      obtain d where "up (mk_request p (current s)) = Inr d"
        "incomplete s \<or> incomplete_results d = Some True"
        by (auto simp: incomplete_absorb)
      with Break False show ?thesis by (auto simp: calls_Break)
    qed
  next
    case (Continue t)
    from Continue "1.prems"(1) have run: "loop up p t = Inr s'"
      by (simp add: loop_Continue)
    from body_Continue_absorb[OF Continue]
    obtain d where d: "up (mk_request p (current s)) = Inr d"
      "incomplete t = (incomplete s \<or> incomplete_results d = Some True)"
      by (auto simp: incomplete_absorb)
    from "1.IH"[OF Continue run "1.prems"(2)] d Continue show ?thesis
      by (auto simp: calls_Continue)
  next
    case (Throw e)
    with "1.prems" show ?thesis by (simp add: loop_Throw)
  qed
qed

lemma total_absorb: "total (absorb d s) = (if fetchedPages s = 0 then total_count d else total s)"
  by (simp add: absorb_def)

lemma fetchedPages_absorb: "fetchedPages (absorb d s) = Suc (fetchedPages s)"
  by (simp add: absorb_def)

lemma loop_total_kept: "loop up p s = Inr s' \<Longrightarrow> 0 < fetchedPages s \<Longrightarrow> total s' = total s"
proof (induction up p s rule: loop.induct)
  case (1 up p s)
  show ?case
  proof (cases "body up p s")
    case (Break t)
    with "1.prems" have "s' = t" by (simp add: loop_Break)
    show ?thesis
    proof (cases "page_cap_reached p s")
      case True
      with Break \<open>s' = t\<close> show ?thesis by (simp add: body_capped)
    next
      case False
      from body_Break_absorb[OF Break False] \<open>s' = t\<close> "1.prems"(2)
      show ?thesis by (auto simp: total_absorb)
    qed
  next
    case (Continue t)
    from Continue "1.prems"(1) have run: "loop up p t = Inr s'"
      by (simp add: loop_Continue)
    from body_Continue_absorb[OF Continue] "1.prems"(2)
    have "total t = total s" "0 < fetchedPages t"
      by (auto simp: total_absorb fetchedPages_absorb)
    with "1.IH"[OF Continue run] show ?thesis by simp
  next
    case (Throw e)
    with "1.prems" show ?thesis by (simp add: loop_Throw)
  qed
qed

lemma loop_total_first:
  assumes "loop up p s = Inr s'" "fetchedPages s = 0" "\<not> page_cap_reached p s"
  shows "\<exists>d rest. calls up p s = (mk_request p (current s), Inr d) # rest \<and> total s' = total_count d"
proof (cases "body up p s")
  case (Break t)
  with assms have "s' = t" by (simp add: loop_Break)
  with body_Break_absorb[OF Break assms(3)] assms(2) Break assms(3) show ?thesis
    by (auto simp: total_absorb calls_Break)
next
  case (Continue t)
  from Continue assms(1) have run: "loop up p t = Inr s'"
    by (simp add: loop_Continue)
  from body_Continue_absorb[OF Continue] assms(2)
  obtain d where d: "up (mk_request p (current s)) = Inr d" "total t = total_count d" "0 < fetchedPages t"
    by (auto simp: total_absorb fetchedPages_absorb)
  from loop_total_kept[OF run d(3)] d Continue show ?thesis
    by (auto simp: calls_Continue)
next
  case (Throw e)
  with assms show ?thesis by (simp add: loop_Throw)
qed

lemma loop_fail_fast:
  "(rq, Inl e) \<in> set (calls up p s) \<Longrightarrow>
   loop up p s = Inl e \<and> last (calls up p s) = (rq, Inl e)"
proof (induction up p s rule: loop.induct)
  case (1 up p s)
  from "1.prems" have nc: "\<not> page_cap_reached p s"
    by (auto simp: calls_capped)
  show ?case
  proof (cases "body up p s")
    case (Break t)
    from body_Break_absorb[OF Break nc] "1.prems" Break nc show ?thesis
      by (auto simp: calls_Break)
  next
    case (Continue t)
    from body_Continue_absorb[OF Continue] "1.prems" Continue
    have in_t: "(rq, Inl e) \<in> set (calls up p t)"
      by (auto simp: calls_Continue)
    then have "calls up p t \<noteq> []" by auto
    with "1.IH"[OF Continue in_t] Continue show ?thesis
      by (simp add: loop_Continue calls_Continue)
  next
    case (Throw e')
    with "1.prems" show ?thesis by (simp add: loop_Throw calls_Throw)
  qed
qed

lemma calls_per_page: "(rq, x) \<in> set (calls up p s) \<Longrightarrow> rq_per_page rq = per_page p"
proof (induction up p s rule: calls.induct)
  case (1 up p s)
  from "1.prems" have nc: "\<not> page_cap_reached p s"
    by (auto simp: calls_capped)
  show ?case
  proof (cases "body up p s")
    case (Break t)
    with "1.prems" nc show ?thesis by (auto simp: calls_Break mk_request_def)
  next
    case (Continue t)
    with "1.prems" "1.IH"[OF nc Continue] show ?thesis
      by (auto simp: calls_Continue mk_request_def)
  next
    case (Throw e')
    with "1.prems" show ?thesis by (auto simp: calls_Throw mk_request_def)
  qed
qed

lemma loop_fetchedPages:
  "loop up p s = Inr s' \<Longrightarrow> fetchedPages s' = fetchedPages s + length (calls up p s)"
proof (induction up p s rule: loop.induct)
  case (1 up p s)
  show ?case
  proof (cases "body up p s")
    case (Break t)
    with "1.prems" have "s' = t" by (simp add: loop_Break)
    show ?thesis
    proof (cases "page_cap_reached p s")
      case True
      with Break \<open>s' = t\<close> show ?thesis by (simp add: body_capped calls_capped)
    next
      case False
      from body_Break_absorb[OF Break False] \<open>s' = t\<close> Break False
      show ?thesis by (auto simp: fetchedPages_absorb calls_Break)
    qed
  next
    case (Continue t)
    from Continue "1.prems"(1) have run: "loop up p t = Inr s'"
      by (simp add: loop_Continue)
    from body_Continue_absorb[OF Continue]
    have "fetchedPages t = Suc (fetchedPages s)"
      by (auto simp: fetchedPages_absorb)
    with "1.IH"[OF Continue run] Continue show ?thesis by (simp add: calls_Continue)
  next
    case (Throw e)
    with "1.prems" show ?thesis by (simp add: loop_Throw)
  qed
qed

lemma calls_page_cap:
  "max_pages p = Some m \<Longrightarrow> 0 < m \<Longrightarrow> int (fetchedPages s) \<le> m \<Longrightarrow>
   int (fetchedPages s + length (calls up p s)) \<le> m"
proof (induction up p s rule: calls.induct)
  case (1 up p s)
  show ?case
  proof (cases "page_cap_reached p s")
    case True
    with "1.prems" show ?thesis by (simp add: calls_capped)
  next
    case nc: False
    with "1.prems" have lt: "int (fetchedPages s) < m"
      by (simp add: page_cap_reached_def)
    show ?thesis
    proof (cases "body up p s")
      case (Break t)
      with nc lt show ?thesis by (simp add: calls_Break)
    next
      case (Continue t)
      from body_Continue_absorb[OF Continue]
      have "fetchedPages t = Suc (fetchedPages s)"
        by (auto simp: fetchedPages_absorb)
      with "1.IH"[OF nc Continue "1.prems"(1,2)] lt Continue show ?thesis
        by (simp add: calls_Continue)
    next
      case (Throw e')
      with lt show ?thesis by (simp add: calls_Throw)
    qed
  qed
qed

lemma length_concat_take: "length (concat (take n xss)) \<le> length (concat xss)"
proof -
  have "concat xss = concat (take n xss) @ concat (drop n xss)"
    by (metis append_take_drop_id concat_append)
  then show ?thesis by (metis le_add1 length_append)
qed

lemma concat_take_Suc: "k < length xss \<Longrightarrow> concat (take (Suc k) xss) = concat (take k xss) @ xss ! k"
  by (simp add: take_Suc_conv_app_nth)

lemma paged_fetch:
  assumes "k < length pgs" "current s = int k + 1"
  shows "paged_source pgs (mk_request p (current s)) =
         Inr \<lparr> total_count = int (length (concat pgs)), incomplete_results = Some False,
               items = pgs ! k, link_rel_next = (Suc k < length pgs) \<rparr>"
  using assms by (auto simp: paged_source_def mk_request_def)

lemma loop_paged:
  assumes "[] \<notin> set pgs"
  shows "k < length pgs \<Longrightarrow> current s = int k + 1 \<Longrightarrow> fetchedPages s = k \<Longrightarrow>
         collected s = concat (take k pgs) \<Longrightarrow>
         \<exists>s'. loop (paged_source pgs) p s = Inr s'
            \<and> fetchedPages s' \<le> length pgs
            \<and> length (collected s') \<le> length (concat pgs)
            \<and> (uncapped p (length pgs) \<longrightarrow>
                 min (int (length (concat pgs))) (min (max_items p) 1000) \<le> int (length (collected s')))"
proof (induction "length pgs - k" arbitrary: k s rule: less_induct)
  case less
  let ?up = "paged_source pgs"
  let ?d = "\<lparr> total_count = int (length (concat pgs)), incomplete_results = Some False,
               items = pgs ! k, link_rel_next = (Suc k < length pgs) \<rparr>"
  let ?s1 = "absorb ?d s"
  let ?c1 = "concat (take (Suc k) pgs)"
  have fetch: "?up (mk_request p (current s)) = Inr ?d"
    using less.prems(1,2) by (rule paged_fetch)
  have nonempty: "pgs ! k \<noteq> []"
    using assms less.prems(1) by (metis nth_mem)
  have c1: "collected ?s1 = ?c1"
    using less.prems(1,4) by (simp add: absorb_def concat_take_Suc)
  have f1: "fetchedPages ?s1 = Suc k"
    using less.prems(3) by (simp add: absorb_def)
  have c1_le: "length ?c1 \<le> length (concat pgs)"
    by (rule length_concat_take)
  show ?case
  proof (cases "page_cap_reached p s")
    case True
    then have "loop ?up p s = Inr s" by (simp add: loop_Break body_capped)
    moreover have "\<not> uncapped p (length pgs)"
      using True less.prems(1,3) by (auto simp: page_cap_reached_def uncapped_def split: option.splits)
    moreover have "length (collected s) \<le> length (concat pgs)"
      using less.prems(4) by (simp add: length_concat_take)
    ultimately show ?thesis using less.prems(1,3) by simp
  next
    case nc: False
    consider (cap) "max_items p \<le> int (length ?c1)"
      | (ceil) "int (length ?c1) < max_items p" "1000 \<le> length ?c1"
      | (last) "int (length ?c1) < max_items p" "length ?c1 < 1000" "\<not> Suc k < length pgs"
      | (more) "int (length ?c1) < max_items p" "length ?c1 < 1000" "Suc k < length pgs"
      by linarith
    then show ?thesis
    proof cases
      case cap
      then have "body ?up p s = Break ?s1"
        using nc nonempty c1 by (simp add: body_def fetch Let_def)
      then have "loop ?up p s = Inr ?s1" by (rule loop_Break)
      then show ?thesis using c1 f1 c1_le cap less.prems(1) by (simp add: min_le_iff_disj)
    next
      case ceil
      then have "body ?up p s = Break (?s1\<lparr>collected := take 1000 (collected ?s1)\<rparr>)"
        using nc nonempty c1 by (simp add: body_def fetch Let_def)
      then have "loop ?up p s = Inr (?s1\<lparr>collected := take 1000 (collected ?s1)\<rparr>)" by (rule loop_Break)
      then show ?thesis using c1 f1 c1_le ceil less.prems(1) by (simp add: min_le_iff_disj)
    next
      case last
      then have "body ?up p s = Break ?s1"
        using nc nonempty c1 by (simp add: body_def fetch Let_def)
      then have run: "loop ?up p s = Inr ?s1" by (rule loop_Break)
      from last(3) less.prems(1) have "Suc k = length pgs" by simp
      then have "?c1 = concat pgs" by simp
      with run show ?thesis using c1 f1 less.prems(1) by (simp add: min_le_iff_disj)
    next
      case more
      let ?s2 = "?s1\<lparr>current := current ?s1 + 1\<rparr>"
      from more have "body ?up p s = Continue ?s2"
        using nc nonempty c1 by (simp add: body_def fetch Let_def)
      then have run: "loop ?up p s = loop ?up p ?s2" by (rule loop_Continue)
      have "length pgs - Suc k < length pgs - k" using more(3) by simp
      moreover have "current ?s2 = int (Suc k) + 1"
        using less.prems(2) by (simp add: absorb_def)
      moreover have "fetchedPages ?s2 = Suc k" using f1 by simp
      moreover have "collected ?s2 = concat (take (Suc k) pgs)" using c1 by simp
      ultimately show ?thesis using less.hyps[of "Suc k" ?s2] more(3) run by simp
    qed
  qed
qed

lemma length_concat_take_mono:
  "i \<le> j \<Longrightarrow> length (concat (take i xss)) \<le> length (concat (take j xss))"
proof -
  assume "i \<le> j"
  then have "take i xss = take i (take j xss)" by (simp add: min_def)
  then show ?thesis by (metis length_concat_take)
qed

lemma length_concat_take_strict:
  assumes "[] \<notin> set xss" "i < j" "j \<le> length xss"
  shows "length (concat (take i xss)) < length (concat (take j xss))"
proof -
  from assms have i: "i < length xss" by simp
  with assms(1) have "xss ! i \<noteq> []" by (metis nth_mem)
  then have "length (concat (take i xss)) < length (concat (take (Suc i) xss))"
    using i by (simp add: concat_take_Suc)
  also have "\<dots> \<le> length (concat (take j xss))"
    using assms(2) by (intro length_concat_take_mono) simp
  finally show ?thesis .
qed

text \<open>The loop makes no request once the collection has reached either bound.\<close>

lemma loop_paged_needed:
  assumes "[] \<notin> set pgs"
  shows "k < length pgs \<Longrightarrow> current s = int k + 1 \<Longrightarrow> fetchedPages s = k \<Longrightarrow>
         collected s = concat (take k pgs) \<Longrightarrow>
         int (length (collected s)) < max_items p \<Longrightarrow> length (collected s) < 1000 \<Longrightarrow>
         \<exists>s'. loop (paged_source pgs) p s = Inr s'
            \<and> int (length (concat (take (fetchedPages s' - 1) pgs))) < max_items p
            \<and> length (concat (take (fetchedPages s' - 1) pgs)) < 1000"
proof (induction "length pgs - k" arbitrary: k s rule: less_induct)
  case less
  let ?up = "paged_source pgs"
  let ?d = "\<lparr> total_count = int (length (concat pgs)), incomplete_results = Some False,
               items = pgs ! k, link_rel_next = (Suc k < length pgs) \<rparr>"
  let ?s1 = "absorb ?d s"
  let ?c1 = "concat (take (Suc k) pgs)"
  have fetch: "?up (mk_request p (current s)) = Inr ?d"
    using less.prems(1,2) by (rule paged_fetch)
  have nonempty: "pgs ! k \<noteq> []"
    using assms less.prems(1) by (metis nth_mem)
  have c1: "collected ?s1 = ?c1"
    using less.prems(1,4) by (simp add: absorb_def concat_take_Suc)
  have f1: "fetchedPages ?s1 = Suc k"
    using less.prems(3) by (simp add: absorb_def)
  have here: "int (length (concat (take k pgs))) < max_items p" "length (concat (take k pgs)) < 1000"
    using less.prems(4,5,6) by simp_all
  show ?case
  proof (cases "page_cap_reached p s")
    case True
    then have "loop ?up p s = Inr s" by (simp add: loop_Break body_capped)
    moreover have "length (concat (take (k - 1) pgs)) \<le> length (concat (take k pgs))"
      by (rule length_concat_take_mono) simp
    ultimately show ?thesis using here less.prems(3) by simp
  next
    case nc: False
    consider (cap) "max_items p \<le> int (length ?c1)"
      | (ceil) "int (length ?c1) < max_items p" "1000 \<le> length ?c1"
      | (last) "int (length ?c1) < max_items p" "length ?c1 < 1000" "\<not> Suc k < length pgs"
      | (more) "int (length ?c1) < max_items p" "length ?c1 < 1000" "Suc k < length pgs"
      by linarith
    then show ?thesis
    proof cases
      case cap
      then have "body ?up p s = Break ?s1"
        using nc nonempty c1 by (simp add: body_def fetch Let_def)
      then have "loop ?up p s = Inr ?s1" by (rule loop_Break)
      then show ?thesis using f1 here by simp
    next
      case ceil
      then have "body ?up p s = Break (?s1\<lparr>collected := take 1000 (collected ?s1)\<rparr>)"
        using nc nonempty c1 by (simp add: body_def fetch Let_def)
      then have "loop ?up p s = Inr (?s1\<lparr>collected := take 1000 (collected ?s1)\<rparr>)" by (rule loop_Break)
      then show ?thesis using f1 here by simp
    next
      case last
      then have "body ?up p s = Break ?s1"
        using nc nonempty c1 by (simp add: body_def fetch Let_def)
      then have run: "loop ?up p s = Inr ?s1" by (rule loop_Break)
      then show ?thesis using f1 here by simp
    next
      case more
      let ?s2 = "?s1\<lparr>current := current ?s1 + 1\<rparr>"
      from more have "body ?up p s = Continue ?s2"
        using nc nonempty c1 by (simp add: body_def fetch Let_def)
      then have run: "loop ?up p s = loop ?up p ?s2" by (rule loop_Continue)
      have "length pgs - Suc k < length pgs - k" using more(3) by simp
      moreover have "current ?s2 = int (Suc k) + 1"
        using less.prems(2) by (simp add: absorb_def)
      moreover have "fetchedPages ?s2 = Suc k" using f1 by simp
      moreover have "collected ?s2 = concat (take (Suc k) pgs)" using c1 by simp
      moreover have "int (length (collected ?s2)) < max_items p" "length (collected ?s2) < 1000"
        using more(1,2) c1 by simp_all
      ultimately show ?thesis using less.hyps[of "Suc k" ?s2] more(3) run by simp
    qed
  qed
qed

text \<open>
  A run that is not cut short before page \<open>j\<close> and meets a reason to stop there without
  having passed either bound ends after exactly \<open>j\<close> requests with exactly the first
  \<open>j\<close> pages.
\<close>

lemma loop_paged_exact:
  assumes ne: "[] \<notin> set pgs"
    and j: "j \<le> length pgs"
    and bound: "int (length (concat (take j pgs))) \<le> max_items p" "length (concat (take j pgs)) \<le> 1000"
    and cap: "uncapped p j"
    and stop: "int (length (concat (take j pgs))) = max_items p \<or> length (concat (take j pgs)) = 1000
               \<or> j = length pgs \<or> max_pages p = Some (int j)"
  shows "k < j \<Longrightarrow> current s = int k + 1 \<Longrightarrow> fetchedPages s = k \<Longrightarrow>
         collected s = concat (take k pgs) \<Longrightarrow>
         \<exists>s'. loop (paged_source pgs) p s = Inr s' \<and> fetchedPages s' = j
            \<and> collected s' = concat (take j pgs)"
proof (induction "j - k" arbitrary: k s rule: less_induct)
  case less
  let ?up = "paged_source pgs"
  let ?d = "\<lparr> total_count = int (length (concat pgs)), incomplete_results = Some False,
               items = pgs ! k, link_rel_next = (Suc k < length pgs) \<rparr>"
  let ?s1 = "absorb ?d s"
  let ?c1 = "concat (take (Suc k) pgs)"
  let ?s2 = "?s1\<lparr>current := current ?s1 + 1\<rparr>"
  from less.prems(1) j have k: "k < length pgs" by simp
  have fetch: "?up (mk_request p (current s)) = Inr ?d"
    using k less.prems(2) by (rule paged_fetch)
  have nonempty: "pgs ! k \<noteq> []"
    using ne k by (metis nth_mem)
  have c1: "collected ?s1 = ?c1"
    using k less.prems(4) by (simp add: absorb_def concat_take_Suc)
  have f1: "fetchedPages ?s1 = Suc k"
    using less.prems(3) by (simp add: absorb_def)
  have nc: "\<not> page_cap_reached p s"
    using cap less.prems(1,3) by (auto simp: page_cap_reached_def uncapped_def split: option.splits)
  have s2: "current ?s2 = int (Suc k) + 1" "fetchedPages ?s2 = Suc k"
    "collected ?s2 = concat (take (Suc k) pgs)"
    using less.prems(2) f1 c1 by (simp_all add: absorb_def)
  show ?case
  proof (cases "Suc k < j")
    case True
    from length_concat_take_strict[OF ne True j] bound
    have small: "int (length ?c1) < max_items p" "length ?c1 < 1000" by simp_all
    from True j have "Suc k < length pgs" by simp
    with small have "body ?up p s = Continue ?s2"
      using nc nonempty c1 by (simp add: body_def fetch Let_def)
    then have run: "loop ?up p s = loop ?up p ?s2" by (rule loop_Continue)
    have "j - Suc k < j - k" using True by simp
    from less.hyps[OF this True s2] run show ?thesis by simp
  next
    case False
    with less.prems(1) have eq: "Suc k = j" by simp
    consider (cap) "max_items p \<le> int (length ?c1)"
      | (ceil) "int (length ?c1) < max_items p" "1000 \<le> length ?c1"
      | (last) "int (length ?c1) < max_items p" "length ?c1 < 1000" "\<not> Suc k < length pgs"
      | (more) "int (length ?c1) < max_items p" "length ?c1 < 1000" "Suc k < length pgs"
      by linarith
    then show ?thesis
    proof cases
      case cap
      then have "body ?up p s = Break ?s1"
        using nc nonempty c1 by (simp add: body_def fetch Let_def)
      then have "loop ?up p s = Inr ?s1" by (rule loop_Break)
      then show ?thesis using c1 f1 eq by simp
    next
      case ceil
      with bound(2) eq have "length ?c1 = 1000" by simp
      then have same: "take 1000 ?c1 = ?c1" by simp
      from ceil have "body ?up p s = Break (?s1\<lparr>collected := take 1000 (collected ?s1)\<rparr>)"
        using nc nonempty c1 by (simp add: body_def fetch Let_def)
      then have "loop ?up p s = Inr (?s1\<lparr>collected := take 1000 (collected ?s1)\<rparr>)"
        by (rule loop_Break)
      then show ?thesis using c1 f1 eq same by simp
    next
      case last
      then have "body ?up p s = Break ?s1"
        using nc nonempty c1 by (simp add: body_def fetch Let_def)
      then have "loop ?up p s = Inr ?s1" by (rule loop_Break)
      then show ?thesis using c1 f1 eq by simp
    next
      case more
      with stop eq have mp: "max_pages p = Some (int j)" by auto
      from more have "body ?up p s = Continue ?s2"
        using nc nonempty c1 by (simp add: body_def fetch Let_def)
      then have run: "loop ?up p s = loop ?up p ?s2" by (rule loop_Continue)
      have "page_cap_reached p ?s2"
        using mp s2(2) eq by (auto simp: page_cap_reached_def)
      then have "loop ?up p ?s2 = Inr ?s2" by (simp add: loop_Break body_capped)
      with run show ?thesis using s2 eq by simp
    qed
  qed
qed

text \<open>A source without pages answers the first request with an empty page.\<close>

lemma loop_paged_empty:
  assumes "\<not> page_cap_reached p s"
  shows "\<exists>s'. loop (paged_source []) p s = Inr s' \<and> fetchedPages s' = Suc (fetchedPages s)
            \<and> collected s' = collected s"
proof -
  let ?d = "\<lparr> total_count = 0, incomplete_results = Some False, items = [] :: 'a list,
               link_rel_next = (current s < 0) \<rparr>"
  have "paged_source [] (mk_request p (current s)) = Inr ?d"
    by (auto simp: paged_source_def mk_request_def)
  then have "body (paged_source []) p s = Break (absorb ?d s)"
    using assms by (simp add: body_def Let_def)
  then have "loop (paged_source []) p s = Inr (absorb ?d s)" by (rule loop_Break)
  then show ?thesis by (simp add: absorb_def)
qed

lemmas run_defs =
  search_code_def fetched_def inputSchema_parse_def in_range_def only_q_def aggregate_def
  destructure_def or_default_def init_def body_def page_cap_reached_def mk_request_def
  absorb_def respond_def hdr_def loop.simps calls.simps

lemma parse_same: "inputSchema_parse a = Inr a' \<Longrightarrow> a' = a"
  by (simp add: inputSchema_parse_def split: if_splits)

lemma search_code_Inr:
  assumes "search_code up a = Inr r"
  shows "inputSchema_parse a = Inr a"
    and "\<exists>s'. loop up (destructure a) (init (destructure a)) = Inr s' \<and> r = respond s'"
proof -
  from assms obtain a' where a': "inputSchema_parse a = Inr a'"
    by (auto simp: search_code_def split: sum.splits)
  then show p: "inputSchema_parse a = Inr a" using parse_same by blast
  with assms show "\<exists>s'. loop up (destructure a) (init (destructure a)) = Inr s' \<and> r = respond s'"
    by (auto simp: search_code_def aggregate_def split: sum.splits)
qed

lemma fetched_parsed:
  "inputSchema_parse a = Inr a \<Longrightarrow> fetched up a = calls up (destructure a) (init (destructure a))"
  by (simp add: fetched_def)

lemma fetched_nonempty_parsed: "x \<in> set (fetched up a) \<Longrightarrow> inputSchema_parse a = Inr a"
  by (cases "inputSchema_parse a") (auto simp: fetched_def dest: parse_same)

lemma init_not_capped: "inputSchema_parse a = Inr a \<Longrightarrow> \<not> page_cap_reached (destructure a) (init (destructure a))"
  by (auto simp: inputSchema_parse_def in_range_def page_cap_reached_def destructure_def init_def
      split: if_splits option.splits)

section \<open>Lookups in the transport map\<close>

text \<open>Outside the inherited names, a request without a registered session id is
  answered with 400 by \<^verbatim>\<open>handleSession\<close>; neither handler touches the map.\<close>

lemma handleSession_unknown:
  "sessionId = None \<or> (\<exists>k. sessionId = Some k \<and> transports st k = None \<and> k \<notin> set Object_prototype) \<Longrightarrow>
   handleSession st sessionId = (Sent 400 ''Invalid session'', st)"
  by (auto simp: handleSession_def known_def get_property_def)

lemma handlers_keep_transports:
  "transports (snd (handleSession st sessionId)) = transports st"
  "transports (snd (handleEnsured st sessionId)) = transports st"
  by (auto simp: handleSession_def handleEnsured_def ensureTransport_def split: option.splits)

lemma onsessionclosed_unknown: "transports st k = None \<Longrightarrow> onsessionclosed k st = st"
  by (simp add: onsessionclosed_def fun_upd_idem)

section \<open>Properties of the paging loop\<close>

text \<open>
  C3. The incomplete flag is sticky. No pass through the loop body clears a flag that is
  set, and if any page fetched during a run reports \<^verbatim>\<open>incomplete_results = true\<close>,
  the result of the run reports \<open>incomplete = true\<close>, whatever later pages report.
\<close>

theorem sticky_incomplete:
  "(\<forall>s s'. (body up p s = Continue s' \<or> body up p s = Break s') \<longrightarrow> incomplete s \<longrightarrow> incomplete s')
   \<and> (\<forall>r rq d. search_code up a = Inr r \<longrightarrow> (rq, Inr d) \<in> set (fetched up a) \<longrightarrow>
         incomplete_results d = Some True \<longrightarrow> res_incomplete r)"
proof (intro conjI allI impI)
  fix s s' :: "'a loop_state"
  assume step: "body up p s = Continue s' \<or> body up p s = Break s'" and inc: "incomplete s"
  show "incomplete s'"
  proof (cases "page_cap_reached p s")
    case True
    with step inc show ?thesis by (simp add: body_capped)
  next
    case False
    from step show ?thesis
    proof
      assume "body up p s = Continue s'"
      from body_Continue_absorb[OF this] inc show ?thesis by (auto simp: incomplete_absorb)
    next
      assume "body up p s = Break s'"
      from body_Break_absorb[OF this False] inc show ?thesis by (auto simp: incomplete_absorb)
    qed
  qed
next
  fix r rq d
  assume run: "search_code up a = Inr r" and mem: "(rq, Inr d) \<in> set (fetched up a)"
    and flag: "incomplete_results d = Some True"
  from search_code_Inr[OF run] obtain s' where
    p: "inputSchema_parse a = Inr a" and
    l: "loop up (destructure a) (init (destructure a)) = Inr s'" and r: "r = respond s'"
    by blast
  from mem p have "(rq, Inr d) \<in> set (calls up (destructure a) (init (destructure a)))"
    by (simp add: fetched_parsed)
  from loop_page_sets_incomplete[OF l this flag] r show "res_incomplete r"
    by (simp add: respond_def)
qed

theorem sticky_incomplete_witness:
  "body (scripted_source flag_then_clear) (destructure (only_q ''x'')) (after_first True)
     = Break \<lparr> collected = [1, 2], current = 2, fetchedPages = 2, total = 3, incomplete = True \<rparr>
   \<and> incomplete (after_first True)
   \<and> search_code (scripted_source flag_then_clear) (only_q ''x'')
     = Inr \<lparr> summary = (3, 2, 2), res_total = 3, res_incomplete = True,
              res_items = [1, 2], resource_links = [1, 2] \<rparr>
   \<and> (mk_request (destructure (only_q ''x'')) 1, flag_then_clear ! 0)
        \<in> set (fetched (scripted_source flag_then_clear) (only_q ''x''))
   \<and> flag_then_clear ! 0
     = Inr \<lparr> total_count = 3, incomplete_results = Some True, items = [1], link_rel_next = True \<rparr>
   \<and> incomplete \<lparr> collected = [1, 2 :: nat], current = 2, fetchedPages = 2, total = 3, incomplete = True \<rparr>
   \<and> res_incomplete \<lparr> summary = (3, 2, 2), res_total = 3, res_incomplete = True,
              res_items = [1, 2 :: nat], resource_links = [1, 2] \<rparr>"
proof -
  let ?up = "scripted_source flag_then_clear"
  let ?a = "only_q ''x''"
  let ?d = "\<lparr> total_count = 3, incomplete_results = Some True, items = [1::nat], link_rel_next = True \<rparr>"
  let ?s2 = "\<lparr> collected = [1, 2 :: nat], current = 2, fetchedPages = 2, total = 3, incomplete = True \<rparr>"
  let ?r = "\<lparr> summary = (3, 2, 2), res_total = 3, res_incomplete = True,
              res_items = [1, 2 :: nat], resource_links = [1, 2] \<rparr>"
  have h1: "body ?up (destructure ?a) (after_first True) = Break ?s2"
    by (simp add: run_defs scripted_source_def flag_then_clear_def after_first_def)
  have h2: "incomplete (after_first True)" by (simp add: after_first_def)
  have h3: "search_code ?up ?a = Inr ?r"
    by (simp add: run_defs scripted_source_def flag_then_clear_def)
  have h4: "flag_then_clear ! 0 = Inr ?d" by (simp add: flag_then_clear_def)
  have h5: "(mk_request (destructure ?a) 1, Inr ?d) \<in> set (fetched ?up ?a)"
    by (simp add: run_defs scripted_source_def flag_then_clear_def)
  have h6: "incomplete_results ?d = Some True" by simp
  note inst = sticky_incomplete[of ?up "destructure ?a" ?a]
  from inst h1 h2 have c1: "incomplete ?s2" by blast
  from inst h3 h5 h6 have c2: "res_incomplete ?r" by blast
  from h1 h2 h3 h4 h5 c1 c2 show ?thesis by simp
qed

text \<open>
  C10. A page whose payload has no \<^verbatim>\<open>incomplete_results\<close> field counts as reporting
  false: absorbing it leaves the flag as it was, and the result of a run reports
  \<open>incomplete = true\<close> only if some fetched page carried \<^verbatim>\<open>incomplete_results = true\<close>.
\<close>

theorem incomplete_only_if_reported:
  "(\<forall>(d :: 'a response) (s :: 'a loop_state).
       incomplete_results d = None \<longrightarrow> incomplete (absorb d s) = incomplete s)
   \<and> (\<forall>r. search_code (up :: 'a upstream) a = Inr r \<longrightarrow> res_incomplete r \<longrightarrow>
         (\<exists>rq d. (rq, Inr d) \<in> set (fetched up a) \<and> incomplete_results d = Some True))"
proof (intro conjI allI impI)
  fix d :: "'a response" and s :: "'a loop_state"
  assume "incomplete_results d = None"
  then show "incomplete (absorb d s) = incomplete s" by (simp add: incomplete_absorb)
next
  fix r
  assume run: "search_code up a = Inr r" and inc: "res_incomplete r"
  from search_code_Inr[OF run] obtain s' where
    p: "inputSchema_parse a = Inr a" and
    l: "loop up (destructure a) (init (destructure a)) = Inr s'" and r: "r = respond s'"
    by blast
  from inc r have "incomplete s'" by (simp add: respond_def)
  from loop_incomplete_only_if[OF l this] p
  show "\<exists>rq d. (rq, Inr d) \<in> set (fetched up a) \<and> incomplete_results d = Some True"
    by (simp add: fetched_parsed init_def)
qed

theorem incomplete_only_if_reported_witness:
  "incomplete_results \<lparr> total_count = 3, incomplete_results = None, items = [1 :: nat],
                         link_rel_next = True \<rparr> = None
   \<and> incomplete (absorb \<lparr> total_count = 3, incomplete_results = None, items = [1 :: nat],
                          link_rel_next = True \<rparr> (after_first False))
       = incomplete (after_first False)
   \<and> search_code (scripted_source flag_then_clear) (only_q ''x'')
     = Inr \<lparr> summary = (3, 2, 2), res_total = 3, res_incomplete = True,
              res_items = [1, 2], resource_links = [1, 2] \<rparr>
   \<and> (\<exists>rq d. (rq, Inr d) \<in> set (fetched (scripted_source flag_then_clear) (only_q ''x''))
          \<and> incomplete_results d = Some True)"
proof -
  let ?up = "scripted_source flag_then_clear"
  let ?a = "only_q ''x''"
  let ?d = "\<lparr> total_count = 3, incomplete_results = None, items = [1::nat], link_rel_next = True \<rparr>"
  let ?r = "\<lparr> summary = (3, 2, 2), res_total = 3, res_incomplete = True,
              res_items = [1, 2 :: nat], resource_links = [1, 2] \<rparr>"
  have h1: "incomplete_results ?d = None" by simp
  have h2: "search_code ?up ?a = Inr ?r"
    by (simp add: run_defs scripted_source_def flag_then_clear_def)
  have h3: "res_incomplete ?r" by simp
  note inst = incomplete_only_if_reported[of ?up ?a]
  from inst h1 have c1: "incomplete (absorb ?d (after_first False)) = incomplete (after_first False)"
    by blast
  from inst h2 h3 have c2: "\<exists>rq d. (rq, Inr d) \<in> set (fetched ?up ?a) \<and> incomplete_results d = Some True"
    by blast
  from h1 h2 c1 c2 show ?thesis by blast
qed

text \<open>
  C4. The total of the result is the \<^verbatim>\<open>total_count\<close> of the first page fetched, the
  one requested at the starting page number; absorbing any later page leaves the total
  as it was, whatever count that page reports.
\<close>

theorem total_count_fixed:
  "(\<forall>r. search_code (up :: 'a upstream) a = Inr r \<longrightarrow>
      (\<exists>rq d rest. fetched up a = (rq, Inr d) # rest \<and> rq_page rq = or_default (page_in a) 1
          \<and> res_total r = total_count d))
   \<and> (\<forall>(d :: 'a response) (s :: 'a loop_state).
         0 < fetchedPages s \<longrightarrow> total (absorb d s) = total s)"
proof (intro conjI allI impI)
  fix r
  assume run: "search_code up a = Inr r"
  from search_code_Inr[OF run] obtain s' where
    p: "inputSchema_parse a = Inr a" and
    l: "loop up (destructure a) (init (destructure a)) = Inr s'" and r: "r = respond s'"
    by blast
  have "fetchedPages (init (destructure a) :: 'a loop_state) = 0" by (simp add: init_def)
  from loop_total_first[OF l this init_not_capped[OF p]] p r
  show "\<exists>rq d rest. fetched up a = (rq, Inr d) # rest \<and> rq_page rq = or_default (page_in a) 1
          \<and> res_total r = total_count d"
    by (auto simp: fetched_parsed respond_def mk_request_def init_def destructure_def)
next
  fix d :: "'a response" and s :: "'a loop_state"
  assume "0 < fetchedPages s"
  then show "total (absorb d s) = total s" by (simp add: total_absorb)
qed

theorem total_count_fixed_witness:
  "search_code (scripted_source flag_then_clear) (only_q ''x'')
     = Inr \<lparr> summary = (3, 2, 2), res_total = 3, res_incomplete = True,
              res_items = [1, 2], resource_links = [1, 2] \<rparr>
   \<and> (\<exists>rq d rest. fetched (scripted_source flag_then_clear) (only_q ''x'') = (rq, Inr d) # rest
          \<and> rq_page rq = 1 \<and> total_count d = 3)
   \<and> 0 < fetchedPages (after_first True)
   \<and> total (absorb \<lparr> total_count = 9, incomplete_results = Some False, items = [2],
                      link_rel_next = False \<rparr> (after_first True)) = 3"
proof -
  let ?up = "scripted_source flag_then_clear"
  let ?a = "only_q ''x''"
  let ?d2 = "\<lparr> total_count = 9, incomplete_results = Some False, items = [2::nat], link_rel_next = False \<rparr>"
  let ?r = "\<lparr> summary = (3, 2, 2), res_total = 3, res_incomplete = True,
              res_items = [1, 2 :: nat], resource_links = [1, 2] \<rparr>"
  have h1: "search_code ?up ?a = Inr ?r"
    by (simp add: run_defs scripted_source_def flag_then_clear_def)
  have h2: "0 < fetchedPages (after_first True)" by (simp add: after_first_def)
  note inst = total_count_fixed[of ?up ?a]
  from inst h1 have "\<exists>rq d rest. fetched ?up ?a = (rq, Inr d) # rest
      \<and> rq_page rq = or_default (page_in ?a) 1 \<and> res_total ?r = total_count d"
    by blast
  then have c1: "\<exists>rq d rest. fetched ?up ?a = (rq, Inr d) # rest \<and> rq_page rq = 1 \<and> total_count d = 3"
    by (simp add: only_q_def or_default_def)
  from inst h2 have "total (absorb ?d2 (after_first True)) = total (after_first True)"
    by blast
  then have c2: "total (absorb ?d2 (after_first True)) = 3" by (simp add: after_first_def)
  from h1 h2 c1 c2 show ?thesis by blast
qed

text \<open>
  C7. The aggregation fails fast. If any request of a run is rejected, the handler
  returns that failure and no result, and the rejected request is the last one made;
  from any loop state, whatever it has collected, a rejected request ends the loop with
  the failure alone.
\<close>

theorem fail_fast:
  "(\<forall>rq e. (rq, Inl e) \<in> set (fetched up a) \<longrightarrow>
       search_code up a = Inl e \<and> last (fetched up a) = (rq, Inl e))
   \<and> (\<forall>s e. \<not> page_cap_reached p s \<longrightarrow> up (mk_request p (current s)) = Inl e \<longrightarrow>
         loop up p s = Inl e)"
proof (intro conjI allI impI)
  fix rq e
  assume mem: "(rq, Inl e) \<in> set (fetched up a)"
  then have p: "inputSchema_parse a = Inr a" by (rule fetched_nonempty_parsed)
  with mem have "(rq, Inl e) \<in> set (calls up (destructure a) (init (destructure a)))"
    by (simp add: fetched_parsed)
  from loop_fail_fast[OF this] p
  show "search_code up a = Inl e" and "last (fetched up a) = (rq, Inl e)"
    by (simp_all add: search_code_def aggregate_def fetched_parsed)
next
  fix s :: "'a loop_state" and e
  assume "\<not> page_cap_reached p s" "up (mk_request p (current s)) = Inl e"
  then have "body up p s = Throw e" by (simp add: body_def)
  then show "loop up p s = Inl e" by (rule loop_Throw)
qed

theorem fail_fast_witness:
  "(mk_request (destructure (only_q ''x'')) 2, Inl (RequestError 403))
       \<in> set (fetched (scripted_source fail_second) (only_q ''x''))
   \<and> search_code (scripted_source fail_second) (only_q ''x'') = Inl (RequestError 403)
   \<and> last (fetched (scripted_source fail_second) (only_q ''x''))
       = (mk_request (destructure (only_q ''x'')) 2, Inl (RequestError 403))
   \<and> collected (after_first False) = [1]
   \<and> \<not> page_cap_reached (destructure (only_q ''x'')) (after_first False)
   \<and> scripted_source fail_second
        (mk_request (destructure (only_q ''x'')) (current (after_first False)))
       = Inl (RequestError 403)
   \<and> loop (scripted_source fail_second) (destructure (only_q ''x'')) (after_first False)
       = Inl (RequestError 403)"
proof -
  let ?up = "scripted_source fail_second"
  let ?a = "only_q ''x''"
  let ?p = "destructure ?a"
  let ?rq = "mk_request ?p 2"
  let ?e = "RequestError 403"
  have h1: "(?rq, Inl ?e) \<in> set (fetched ?up ?a)"
    by (simp add: run_defs scripted_source_def fail_second_def)
  have h2: "\<not> page_cap_reached ?p (after_first False)"
    by (simp add: page_cap_reached_def destructure_def only_q_def)
  have h3: "?up (mk_request ?p (current (after_first False))) = Inl ?e"
    by (simp add: scripted_source_def fail_second_def mk_request_def after_first_def)
  have h4: "collected (after_first False) = [1]" by (simp add: after_first_def)
  note inst = fail_fast[of ?up ?a ?p]
  from inst h1 have c1: "search_code ?up ?a = Inl ?e" and c2: "last (fetched ?up ?a) = (?rq, Inl ?e)"
    by blast+
  from inst h2 h3 have c3: "loop ?up ?p (after_first False) = Inl ?e" by blast
  from h1 h2 h3 h4 c1 c2 c3 show ?thesis by blast
qed

text \<open>
  C8, as the code has it. A \<^verbatim>\<open>per_page\<close> given outside 1 to 25 makes the handler
  throw a ZodError before any request is sent. Every request that is sent carries the
  given \<^verbatim>\<open>per_page\<close>, which then lies in 1 to 25, or, when none was given, the default
  100, which is neither clamped nor rejected.
\<close>

theorem per_page_sent:
  "(\<not> in_range 1 (Some 25) (per_page_in a) \<longrightarrow> search_code up a = Inl ZodError \<and> fetched up a = [])
   \<and> (\<forall>rq x. (rq, x) \<in> set (fetched up a) \<longrightarrow>
         rq_per_page rq = (case per_page_in a of None \<Rightarrow> 100 | Some n \<Rightarrow> n)
         \<and> in_range 1 (Some 25) (per_page_in a))"
proof (intro conjI allI impI)
  assume "\<not> in_range 1 (Some 25) (per_page_in a)"
  then have "inputSchema_parse a = Inl ZodError" by (simp add: inputSchema_parse_def)
  then show "search_code up a = Inl ZodError" and "fetched up a = []"
    by (simp_all add: search_code_def fetched_def)
next
  fix rq x
  assume mem: "(rq, x) \<in> set (fetched up a)"
  then have p: "inputSchema_parse a = Inr a" by (rule fetched_nonempty_parsed)
  with mem have "(rq, x) \<in> set (calls up (destructure a) (init (destructure a)))"
    by (simp add: fetched_parsed)
  from calls_per_page[OF this]
  show "rq_per_page rq = (case per_page_in a of None \<Rightarrow> 100 | Some n \<Rightarrow> n)"
    by (simp add: destructure_def or_default_def)
  from p show "in_range 1 (Some 25) (per_page_in a)"
    by (simp add: inputSchema_parse_def split: if_splits)
qed

theorem per_page_sent_witness:
  "\<not> in_range 1 (Some 25) (per_page_in ((only_q ''x'')\<lparr>per_page_in := Some 26\<rparr>))
   \<and> search_code (paged_source [[7 :: nat]]) ((only_q ''x'')\<lparr>per_page_in := Some 26\<rparr>) = Inl ZodError
   \<and> fetched (paged_source [[7 :: nat]]) ((only_q ''x'')\<lparr>per_page_in := Some 26\<rparr>) = []
   \<and> (mk_request (destructure ((only_q ''x'')\<lparr>per_page_in := Some 20\<rparr>)) 1,
        paged_source [[7 :: nat]] (mk_request (destructure ((only_q ''x'')\<lparr>per_page_in := Some 20\<rparr>)) 1))
       \<in> set (fetched (paged_source [[7]]) ((only_q ''x'')\<lparr>per_page_in := Some 20\<rparr>))
   \<and> rq_per_page (mk_request (destructure ((only_q ''x'')\<lparr>per_page_in := Some 20\<rparr>)) 1) = 20"
proof -
  let ?up = "paged_source [[7 :: nat]]"
  let ?bad = "(only_q ''x'')\<lparr>per_page_in := Some 26\<rparr>"
  let ?ok = "(only_q ''x'')\<lparr>per_page_in := Some 20\<rparr>"
  let ?rq = "mk_request (destructure ?ok) 1"
  have h1: "\<not> in_range 1 (Some 25) (per_page_in ?bad)"
    by (simp add: in_range_def only_q_def)
  have h2: "(?rq, ?up ?rq) \<in> set (fetched ?up ?ok)"
    by (simp add: run_defs paged_source_def)
  from per_page_sent[of ?bad ?up] h1
  have c1: "search_code ?up ?bad = Inl ZodError" and c2: "fetched ?up ?bad = []"
    by blast+
  from per_page_sent[of ?ok ?up] h2
  have "rq_per_page ?rq = (case per_page_in ?ok of None \<Rightarrow> 100 | Some n \<Rightarrow> n)"
    by blast
  then have c3: "rq_per_page ?rq = 20" by (simp add: only_q_def)
  from h1 h2 c1 c2 c3 show ?thesis by blast
qed

text \<open>
  C8, as stated, fails: with \<^verbatim>\<open>per_page\<close> omitted the call is accepted and the one
  request it sends carries \<^verbatim>\<open>per_page = 100\<close>, outside 1 to 25.
\<close>

theorem default_per_page_counterexample:
  "search_code (paged_source [[7 :: nat]]) (only_q ''x'')
     = Inr \<lparr> summary = (1, 1, 1), res_total = 1, res_incomplete = False,
              res_items = [7], resource_links = [7] \<rparr>
   \<and> map (rq_per_page \<circ> fst) (fetched (paged_source [[7 :: nat]]) (only_q ''x'')) = [100]
   \<and> \<not> in_range 1 (Some 25) (Some 100)"
  by (simp add: run_defs paged_source_def)

text \<open>
  C1, as the code has it. For a source of \<open>P\<close> non-empty pages read from page 1 under
  arguments that pass validation, the handler returns a result. It makes as many
  requests as the result's page count says, at most \<open>P\<close> (one for a source without
  pages) and at most \<^verbatim>\<open>max_pages\<close> when that is given, and none once the collection
  has reached \<open>min (max_items, 1000)\<close>. It returns no more items than the source
  holds, and at least \<open>min (total available, max_items, 1000)\<close> when \<^verbatim>\<open>max_pages\<close>
  is absent or at least \<open>P\<close>. Whenever the first \<open>j\<close> pages hold at most
  \<open>min (max_items, 1000)\<close> items, \<^verbatim>\<open>max_pages\<close> is absent or at least \<open>j\<close>, and the
  run has a reason to stop at page \<open>j\<close> (the bound is met exactly there, or \<open>j = P\<close>,
  or \<open>j = max_pages\<close>), it makes exactly \<open>j\<close> requests and returns exactly the items
  of the first \<open>j\<close> pages; in the first two cases that is
  \<open>min (total available, max_items, 1000)\<close> items.
\<close>

theorem aggregate_finite_source:
  assumes "inputSchema_parse a = Inr a"
    and "page_in a = None \<or> page_in a = Some 1"
    and "[] \<notin> set pgs"
  shows "\<exists>r. search_code (paged_source pgs) a = Inr r
           \<and> length (fetched (paged_source pgs) a) = snd (snd (summary r))
           \<and> length (fetched (paged_source pgs) a) \<le> max 1 (length pgs)
           \<and> (\<forall>m. max_pages_in a = Some m \<longrightarrow> int (length (fetched (paged_source pgs) a)) \<le> m)
           \<and> int (length (concat (take (length (fetched (paged_source pgs) a) - 1) pgs)))
                < min (or_default (max_items_in a) 1000) 1000
           \<and> length (res_items r) \<le> length (concat pgs)
           \<and> ((max_pages_in a = None \<or> (\<exists>m. max_pages_in a = Some m \<and> int (length pgs) \<le> m)) \<longrightarrow>
                min (int (length (concat pgs))) (min (or_default (max_items_in a) 1000) 1000)
                  \<le> int (length (res_items r))
                \<and> (int (length (concat pgs)) \<le> min (or_default (max_items_in a) 1000) 1000 \<longrightarrow>
                     length (res_items r) = length (concat pgs)))
           \<and> (\<forall>j. 1 \<le> j \<and> j \<le> length pgs
                  \<and> int (length (concat (take j pgs))) \<le> min (or_default (max_items_in a) 1000) 1000
                  \<and> (max_pages_in a = None \<or> (\<exists>m. max_pages_in a = Some m \<and> int j \<le> m))
                  \<and> (int (length (concat (take j pgs))) = min (or_default (max_items_in a) 1000) 1000
                       \<or> j = length pgs \<or> max_pages_in a = Some (int j))
                 \<longrightarrow> length (fetched (paged_source pgs) a) = j
                     \<and> res_items r = concat (take j pgs)
                     \<and> (int (length (concat (take j pgs))) = min (or_default (max_items_in a) 1000) 1000
                          \<or> j = length pgs
                         \<longrightarrow> int (length (res_items r))
                              = min (int (length (concat pgs))) (min (or_default (max_items_in a) 1000) 1000)))"
proof -
  let ?up = "paged_source pgs"
  let ?p = "destructure a"
  let ?s = "init ?p :: 'a loop_state"
  let ?B = "min (or_default (max_items_in a) 1000) 1000"
  have mi: "max_items ?p = or_default (max_items_in a) 1000" by (simp add: destructure_def)
  from destructure_max_items[OF assms(1)] have B: "1 \<le> max_items ?p" "max_items ?p \<le> 1000"
    by simp_all
  have nc: "\<not> page_cap_reached ?p ?s" using assms(1) by (rule init_not_capped)
  have s0: "current ?s = int 0 + 1" "fetchedPages ?s = 0" "collected ?s = concat (take 0 pgs)"
    using assms(2) by (auto simp: init_def destructure_def or_default_def)
  have s0_small: "int (length (collected ?s)) < max_items ?p" "length (collected ?s) < 1000"
    using B by (simp_all add: init_def)
  have f: "fetched ?up a = calls ?up ?p ?s"
    using assms(1) by (rule fetched_parsed)
  have ex: "\<exists>s'. loop ?up ?p ?s = Inr s'
      \<and> fetchedPages s' \<le> max 1 (length pgs)
      \<and> length (collected s') \<le> length (concat pgs)
      \<and> (uncapped ?p (length pgs) \<longrightarrow>
            min (int (length (concat pgs))) (min (max_items ?p) 1000) \<le> int (length (collected s')))
      \<and> int (length (concat (take (fetchedPages s' - 1) pgs))) < max_items ?p"
  proof (cases "pgs = []")
    case True
    from loop_paged_empty[OF nc] obtain s' where
      "loop (paged_source []) ?p ?s = Inr s'" "fetchedPages s' = Suc (fetchedPages ?s)"
      "collected s' = collected ?s"
      by blast
    with True B show ?thesis by (auto simp: init_def)
  next
    case False
    then have pos: "0 < length pgs" by simp
    from loop_paged[OF assms(3) pos s0] obtain s' where
      run: "loop ?up ?p ?s = Inr s'" and
      a: "fetchedPages s' \<le> length pgs" "length (collected s') \<le> length (concat pgs)"
        "uncapped ?p (length pgs) \<longrightarrow>
            min (int (length (concat pgs))) (min (max_items ?p) 1000) \<le> int (length (collected s'))"
      by blast
    from loop_paged_needed[OF assms(3) pos s0 s0_small] run
    have "int (length (concat (take (fetchedPages s' - 1) pgs))) < max_items ?p" by auto
    with run a show ?thesis by auto
  qed
  then obtain s' where
    run: "loop ?up ?p ?s = Inr s'" and
    pages: "fetchedPages s' \<le> max 1 (length pgs)" and
    upper: "length (collected s') \<le> length (concat pgs)" and
    lower: "uncapped ?p (length pgs) \<longrightarrow>
       min (int (length (concat pgs))) (min (max_items ?p) 1000) \<le> int (length (collected s'))" and
    needed: "int (length (concat (take (fetchedPages s' - 1) pgs))) < max_items ?p"
    by blast
  have res: "search_code ?up a = Inr (respond s')"
    using assms(1) run by (simp add: search_code_def aggregate_def)
  have count: "fetchedPages s' = length (fetched ?up a)"
    using loop_fetchedPages[OF run] f by (simp add: init_def)
  have cap: "int (length (fetched ?up a)) \<le> m" if m: "max_pages_in a = Some m" for m
  proof -
    from assms(1) m have pos: "0 < m"
      by (simp add: inputSchema_parse_def in_range_def split: if_splits)
    have mp: "max_pages ?p = Some m" using m by (simp add: destructure_def)
    have "int (fetchedPages ?s) \<le> m" using pos by (simp add: init_def)
    from calls_page_cap[OF mp pos this, of ?up] show ?thesis by (simp add: f init_def)
  qed
  have low: "min (int (length (concat pgs))) ?B \<le> int (length (res_items (respond s')))"
    if "max_pages_in a = None \<or> (\<exists>m. max_pages_in a = Some m \<and> int (length pgs) \<le> m)"
  proof -
    from that have "uncapped ?p (length pgs)"
      by (auto simp: uncapped_def destructure_def)
    with lower show ?thesis by (simp add: respond_def mi)
  qed
  have eq: "length (res_items (respond s')) = length (concat pgs)"
    if "max_pages_in a = None \<or> (\<exists>m. max_pages_in a = Some m \<and> int (length pgs) \<le> m)"
      and "int (length (concat pgs)) \<le> ?B"
  proof -
    from low[OF that(1)] that(2) have "int (length (concat pgs)) \<le> int (length (res_items (respond s')))"
      by simp
    with upper show ?thesis by (simp add: respond_def)
  qed
  have exact: "length (fetched ?up a) = j \<and> res_items (respond s') = concat (take j pgs)
      \<and> (int (length (concat (take j pgs))) = ?B \<or> j = length pgs
            \<longrightarrow> int (length (res_items (respond s'))) = min (int (length (concat pgs))) ?B)"
    if h: "1 \<le> j \<and> j \<le> length pgs
        \<and> int (length (concat (take j pgs))) \<le> ?B
        \<and> (max_pages_in a = None \<or> (\<exists>m. max_pages_in a = Some m \<and> int j \<le> m))
        \<and> (int (length (concat (take j pgs))) = ?B \<or> j = length pgs \<or> max_pages_in a = Some (int j))"
    for j
  proof -
    from h have j: "0 < j" "j \<le> length pgs" by simp_all
    from h have bound: "int (length (concat (take j pgs))) \<le> max_items ?p"
      "length (concat (take j pgs)) \<le> 1000"
      by (simp_all add: mi)
    from h have unc: "uncapped ?p j" by (auto simp: uncapped_def destructure_def)
    from h B have stop: "int (length (concat (take j pgs))) = max_items ?p
        \<or> length (concat (take j pgs)) = 1000 \<or> j = length pgs \<or> max_pages ?p = Some (int j)"
      by (auto simp: mi destructure_def)
    from loop_paged_exact[OF assms(3) j(2) bound unc stop j(1) s0] run
    have st: "fetchedPages s' = j" "collected s' = concat (take j pgs)" by auto
    have le_total: "length (concat (take j pgs)) \<le> length (concat pgs)"
      by (rule length_concat_take)
    have "int (length (concat (take j pgs))) = min (int (length (concat pgs))) ?B"
      if "int (length (concat (take j pgs))) = ?B \<or> j = length pgs"
      using that h le_total by auto
    with st count show ?thesis by (simp add: respond_def)
  qed
  show ?thesis
  proof (intro exI[of _ "respond s'"] conjI allI impI)
    show "search_code ?up a = Inr (respond s')" by (rule res)
    show "length (fetched ?up a) = snd (snd (summary (respond s')))"
      using count by (simp add: respond_def)
    show "length (fetched ?up a) \<le> max 1 (length pgs)" using count pages by simp
    show "int (length (fetched ?up a)) \<le> m" if "max_pages_in a = Some m" for m
      using that by (rule cap)
    show "int (length (concat (take (length (fetched ?up a) - 1) pgs))) < ?B"
      using needed count B by (simp add: mi)
    show "length (res_items (respond s')) \<le> length (concat pgs)"
      using upper by (simp add: respond_def)
    show "min (int (length (concat pgs))) ?B \<le> int (length (res_items (respond s')))"
      if "max_pages_in a = None \<or> (\<exists>m. max_pages_in a = Some m \<and> int (length pgs) \<le> m)"
      using that by (rule low)
    show "length (res_items (respond s')) = length (concat pgs)"
      if "max_pages_in a = None \<or> (\<exists>m. max_pages_in a = Some m \<and> int (length pgs) \<le> m)"
        and "int (length (concat pgs)) \<le> ?B"
      using that by (rule eq)
  next
    fix j
    assume h: "1 \<le> j \<and> j \<le> length pgs
        \<and> int (length (concat (take j pgs))) \<le> ?B
        \<and> (max_pages_in a = None \<or> (\<exists>m. max_pages_in a = Some m \<and> int j \<le> m))
        \<and> (int (length (concat (take j pgs))) = ?B \<or> j = length pgs \<or> max_pages_in a = Some (int j))"
    from exact[OF h]
    show "length (fetched ?up a) = j" and "res_items (respond s') = concat (take j pgs)"
      by simp_all
    assume "int (length (concat (take j pgs))) = ?B \<or> j = length pgs"
    with exact[OF h]
    show "int (length (res_items (respond s'))) = min (int (length (concat pgs))) ?B"
      by blast
  qed
qed

theorem aggregate_finite_source_witness:
  "inputSchema_parse ((only_q ''x'')\<lparr>max_items_in := Some 4\<rparr>) = Inr ((only_q ''x'')\<lparr>max_items_in := Some 4\<rparr>)
   \<and> page_in ((only_q ''x'')\<lparr>max_items_in := Some 4\<rparr>) = None
   \<and> [] \<notin> set [[1, 2], [3, 4], [5, 6 :: nat]]
   \<and> (1 :: nat) \<le> 2 \<and> 2 \<le> length [[1, 2], [3, 4], [5, 6 :: nat]]
   \<and> max_pages_in ((only_q ''x'')\<lparr>max_items_in := Some 4\<rparr>) = None
   \<and> int (length (concat (take 2 [[1, 2], [3, 4], [5, 6 :: nat]])))
       = min (or_default (max_items_in ((only_q ''x'')\<lparr>max_items_in := Some 4\<rparr>)) 1000) 1000
   \<and> search_code (paged_source [[1, 2], [3, 4], [5, 6 :: nat]]) ((only_q ''x'')\<lparr>max_items_in := Some 4\<rparr>)
       = Inr \<lparr> summary = (6, 4, 2), res_total = 6, res_incomplete = False,
                res_items = [1, 2, 3, 4], resource_links = [1, 2, 3, 4] \<rparr>
   \<and> length (fetched (paged_source [[1, 2], [3, 4], [5, 6 :: nat]]) ((only_q ''x'')\<lparr>max_items_in := Some 4\<rparr>)) = 2
   \<and> int (length [1, 2, 3, 4 :: nat])
       = min (int (length (concat [[1, 2], [3, 4], [5, 6 :: nat]])))
           (min (or_default (max_items_in ((only_q ''x'')\<lparr>max_items_in := Some 4\<rparr>)) 1000) 1000)
   \<and> inputSchema_parse ((only_q ''x'')\<lparr>max_pages_in := Some 3\<rparr>) = Inr ((only_q ''x'')\<lparr>max_pages_in := Some 3\<rparr>)
   \<and> page_in ((only_q ''x'')\<lparr>max_pages_in := Some 3\<rparr>) = None
   \<and> max_pages_in ((only_q ''x'')\<lparr>max_pages_in := Some 3\<rparr>) = Some 3
   \<and> int (length [[1, 2], [3, 4], [5, 6 :: nat]]) \<le> 3
   \<and> int (length (concat [[1, 2], [3, 4], [5, 6 :: nat]]))
       \<le> min (or_default (max_items_in ((only_q ''x'')\<lparr>max_pages_in := Some 3\<rparr>)) 1000) 1000
   \<and> search_code (paged_source [[1, 2], [3, 4], [5, 6 :: nat]]) ((only_q ''x'')\<lparr>max_pages_in := Some 3\<rparr>)
       = Inr \<lparr> summary = (6, 6, 3), res_total = 6, res_incomplete = False,
                res_items = [1, 2, 3, 4, 5, 6], resource_links = [1, 2, 3, 4, 5, 6] \<rparr>
   \<and> int (length (fetched (paged_source [[1, 2], [3, 4], [5, 6 :: nat]]) ((only_q ''x'')\<lparr>max_pages_in := Some 3\<rparr>))) \<le> 3
   \<and> length [1, 2, 3, 4, 5, 6 :: nat] = length (concat [[1, 2], [3, 4], [5, 6 :: nat]])
   \<and> inputSchema_parse ((only_q ''x'')\<lparr>max_items_in := Some 4, max_pages_in := Some 1\<rparr>)
       = Inr ((only_q ''x'')\<lparr>max_items_in := Some 4, max_pages_in := Some 1\<rparr>)
   \<and> max_pages_in ((only_q ''x'')\<lparr>max_items_in := Some 4, max_pages_in := Some 1\<rparr>) = Some (int 1)
   \<and> int (length (concat (take 1 [[1, 2], [3, 4], [5, 6 :: nat]])))
       \<le> min (or_default (max_items_in ((only_q ''x'')\<lparr>max_items_in := Some 4, max_pages_in := Some 1\<rparr>)) 1000) 1000
   \<and> length (fetched (paged_source [[1, 2], [3, 4], [5, 6 :: nat]])
         ((only_q ''x'')\<lparr>max_items_in := Some 4, max_pages_in := Some 1\<rparr>)) = 1
   \<and> search_code (paged_source [[1, 2], [3, 4], [5, 6 :: nat]])
         ((only_q ''x'')\<lparr>max_items_in := Some 4, max_pages_in := Some 1\<rparr>)
       = Inr \<lparr> summary = (6, 2, 1), res_total = 6, res_incomplete = False,
                res_items = concat (take 1 [[1, 2], [3, 4], [5, 6]]),
                resource_links = [1, 2] \<rparr>"
proof -
  let ?pgs = "[[1, 2], [3, 4], [5, 6 :: nat]]"
  let ?up = "paged_source ?pgs"
  let ?a = "(only_q ''x'')\<lparr>max_items_in := Some 4\<rparr>"
  let ?b = "(only_q ''x'')\<lparr>max_pages_in := Some 3\<rparr>"
  let ?c = "(only_q ''x'')\<lparr>max_items_in := Some 4, max_pages_in := Some 1\<rparr>"
  let ?ra = "\<lparr> summary = (6, 4, 2), res_total = 6, res_incomplete = False,
                res_items = [1, 2, 3, 4 :: nat], resource_links = [1, 2, 3, 4] \<rparr>"
  let ?rb = "\<lparr> summary = (6, 6, 3), res_total = 6, res_incomplete = False,
                res_items = [1, 2, 3, 4, 5, 6 :: nat], resource_links = [1, 2, 3, 4, 5, 6] \<rparr>"
  let ?rc = "\<lparr> summary = (6, 2, 1), res_total = 6, res_incomplete = False,
                res_items = [1, 2 :: nat], resource_links = [1, 2] \<rparr>"
  have ne: "[] \<notin> set ?pgs" by simp
  txt \<open>The bound is met exactly at the end of page 2.\<close>
  have a1: "inputSchema_parse ?a = Inr ?a"
    by (simp add: inputSchema_parse_def in_range_def only_q_def)
  have a2: "page_in ?a = None" by (simp add: only_q_def)
  have a3: "(1 :: nat) \<le> 2" "2 \<le> length ?pgs" by simp_all
  have a4: "max_pages_in ?a = None" by (simp add: only_q_def)
  have a5: "int (length (concat (take 2 ?pgs))) = min (or_default (max_items_in ?a) 1000) 1000"
    by (simp add: or_default_def)
  have a6: "search_code ?up ?a = Inr ?ra" by (simp add: run_defs paged_source_def)
  from aggregate_finite_source[of ?a ?pgs, OF a1 _ ne] a2 obtain r where
    r: "search_code ?up ?a = Inr r" and
    x: "\<forall>j. 1 \<le> j \<and> j \<le> length ?pgs
          \<and> int (length (concat (take j ?pgs))) \<le> min (or_default (max_items_in ?a) 1000) 1000
          \<and> (max_pages_in ?a = None \<or> (\<exists>m. max_pages_in ?a = Some m \<and> int j \<le> m))
          \<and> (int (length (concat (take j ?pgs))) = min (or_default (max_items_in ?a) 1000) 1000
               \<or> j = length ?pgs \<or> max_pages_in ?a = Some (int j))
         \<longrightarrow> length (fetched ?up ?a) = j
             \<and> res_items r = concat (take j ?pgs)
             \<and> (int (length (concat (take j ?pgs))) = min (or_default (max_items_in ?a) 1000) 1000
                  \<or> j = length ?pgs
                 \<longrightarrow> int (length (res_items r))
                      = min (int (length (concat ?pgs))) (min (or_default (max_items_in ?a) 1000) 1000))"
    by blast
  from r a6 have ra: "r = ?ra" by simp
  from x[rule_format, of 2] a3 a4 a5
  have "length (fetched ?up ?a) = 2
      \<and> int (length (res_items r))
          = min (int (length (concat ?pgs))) (min (or_default (max_items_in ?a) 1000) 1000)"
    by simp
  with ra have ca: "length (fetched ?up ?a) = 2"
    "int (length [1, 2, 3, 4 :: nat])
       = min (int (length (concat ?pgs))) (min (or_default (max_items_in ?a) 1000) 1000)"
    by simp_all
  txt \<open>The source runs out within the page bound.\<close>
  have b1: "inputSchema_parse ?b = Inr ?b"
    by (simp add: inputSchema_parse_def in_range_def only_q_def)
  have b2: "page_in ?b = None" by (simp add: only_q_def)
  have b3: "max_pages_in ?b = Some 3" by simp
  have b4: "int (length ?pgs) \<le> 3" by simp
  have b5: "int (length (concat ?pgs)) \<le> min (or_default (max_items_in ?b) 1000) 1000"
    by (simp add: only_q_def or_default_def)
  have b6: "search_code ?up ?b = Inr ?rb" by (simp add: run_defs paged_source_def)
  from aggregate_finite_source[of ?b ?pgs, OF b1 _ ne] b2 obtain r' where
    r': "search_code ?up ?b = Inr r'" and
    y: "\<forall>m. max_pages_in ?b = Some m \<longrightarrow> int (length (fetched ?up ?b)) \<le> m" and
    z: "(max_pages_in ?b = None \<or> (\<exists>m. max_pages_in ?b = Some m \<and> int (length ?pgs) \<le> m)) \<longrightarrow>
          min (int (length (concat ?pgs))) (min (or_default (max_items_in ?b) 1000) 1000)
            \<le> int (length (res_items r'))
          \<and> (int (length (concat ?pgs)) \<le> min (or_default (max_items_in ?b) 1000) 1000 \<longrightarrow>
               length (res_items r') = length (concat ?pgs))"
    by blast
  from r' b6 have rb: "r' = ?rb" by simp
  from y b3 have cb1: "int (length (fetched ?up ?b)) \<le> 3" by blast
  from z b3 b4 b5 have "length (res_items r') = length (concat ?pgs)" by blast
  with rb have cb2: "length [1, 2, 3, 4, 5, 6 :: nat] = length (concat ?pgs)" by simp
  txt \<open>The page bound stops the run after page 1.\<close>
  have c1: "inputSchema_parse ?c = Inr ?c"
    by (simp add: inputSchema_parse_def in_range_def only_q_def)
  have c2: "page_in ?c = None" by (simp add: only_q_def)
  have c3: "max_pages_in ?c = Some (int 1)" by simp
  have c4: "int (length (concat (take 1 ?pgs))) \<le> min (or_default (max_items_in ?c) 1000) 1000"
    by (simp add: or_default_def)
  have c6: "search_code ?up ?c = Inr ?rc" by (simp add: run_defs paged_source_def)
  from aggregate_finite_source[of ?c ?pgs, OF c1 _ ne] c2 obtain r'' where
    r'': "search_code ?up ?c = Inr r''" and
    w: "\<forall>j. 1 \<le> j \<and> j \<le> length ?pgs
          \<and> int (length (concat (take j ?pgs))) \<le> min (or_default (max_items_in ?c) 1000) 1000
          \<and> (max_pages_in ?c = None \<or> (\<exists>m. max_pages_in ?c = Some m \<and> int j \<le> m))
          \<and> (int (length (concat (take j ?pgs))) = min (or_default (max_items_in ?c) 1000) 1000
               \<or> j = length ?pgs \<or> max_pages_in ?c = Some (int j))
         \<longrightarrow> length (fetched ?up ?c) = j
             \<and> res_items r'' = concat (take j ?pgs)
             \<and> (int (length (concat (take j ?pgs))) = min (or_default (max_items_in ?c) 1000) 1000
                  \<or> j = length ?pgs
                 \<longrightarrow> int (length (res_items r''))
                      = min (int (length (concat ?pgs))) (min (or_default (max_items_in ?c) 1000) 1000))"
    by blast
  from w[rule_format, of 1] c3 c4
  have "length (fetched ?up ?c) = 1 \<and> res_items r'' = concat (take 1 ?pgs)" by simp
  with r'' c6 have cc: "length (fetched ?up ?c) = 1"
    "search_code ?up ?c = Inr (?rc\<lparr>res_items := concat (take 1 ?pgs)\<rparr>)"
    by simp_all
  from cc(2) have cc2: "search_code ?up ?c
       = Inr \<lparr> summary = (6, 2, 1), res_total = 6, res_incomplete = False,
                res_items = concat (take 1 ?pgs), resource_links = [1, 2] \<rparr>"
    by simp
  from ne a1 a2 a3 a4 a5 a6 ca b1 b2 b3 b4 b5 b6 cb1 cb2 c1 c3 c4 cc(1) cc2
  show ?thesis by (intro conjI)
qed

text \<open>
  C1, as stated, fails: with three pages of two items, \<^verbatim>\<open>max_items = 4\<close> and
  \<^verbatim>\<open>max_pages = 1\<close> the handler stops after one page and returns 2 items, not
  \<open>min (6, 4, 1000) = 4\<close>.
\<close>

theorem page_bound_counterexample:
  "search_code (paged_source [[1, 2], [3, 4], [5, 6 :: nat]])
      ((only_q ''x'')\<lparr>max_items_in := Some 4, max_pages_in := Some 1\<rparr>)
     = Inr \<lparr>summary = (6, 2, 1), res_total = 6, res_incomplete = False,
            res_items = [1, 2], resource_links = [1, 2]\<rparr>
   \<and> length [1, 2 :: nat] \<noteq> min (length (concat [[1, 2], [3, 4], [5, 6 :: nat]])) (min 4 1000)"
  by (simp add: run_defs paged_source_def)

text \<open>
  C2. The result can hold more items than \<^verbatim>\<open>max_items\<close>: the test of line 71 ends
  the loop without cutting the collection. With pages of two items and
  \<^verbatim>\<open>max_items = 3\<close> the handler returns 4 items.
\<close>

theorem max_items_overshoot:
  "search_code (paged_source [[1, 2], [3, 4 :: nat]])
      ((only_q ''x'')\<lparr>per_page_in := Some 2, max_items_in := Some 3\<rparr>)
     = Inr \<lparr> summary = (4, 4, 2), res_total = 4, res_incomplete = False,
              res_items = [1, 2, 3, 4], resource_links = [1, 2, 3, 4] \<rparr>
   \<and> min 3 1000 < length [1, 2, 3, 4 :: nat]"
  by (simp add: run_defs paged_source_def)

text \<open>
  C5. When the collection passes 1000 items under the default \<^verbatim>\<open>max_items = 1000\<close>,
  the test of line 71 ends the loop before the truncation of line 72 is reached: with
  full pages of 24 items the handler stops after 42 pages and returns 1008 items.
\<close>

theorem ceiling_not_truncated:
  "map_sum id (length \<circ> res_items)
     (search_code full_pages_source ((only_q ''x'')\<lparr>per_page_in := Some 24\<rparr>)) = Inr 1008
   \<and> map_sum id (snd \<circ> snd \<circ> summary)
     (search_code full_pages_source ((only_q ''x'')\<lparr>per_page_in := Some 24\<rparr>)) = Inr 42"
  by (simp add: run_defs full_pages_source_def)

section \<open>Properties of the transport map\<close>

text \<open>
  C9. Closing a session removes its entry. Registering an id that was absent and then
  closing it gives back the state in which the id never existed; after a close the id
  is looked up as in a map without sessions, so that (unless it names an inherited
  member) \<^verbatim>\<open>ensureTransport\<close> builds a new transport for it and
  \<^verbatim>\<open>handleSession\<close> answers 400; closing an id that has no entry changes nothing, and
  closing twice is closing once.
\<close>

theorem release_then_resolve:
  "(\<forall>t. transports st k = None \<longrightarrow> onsessionclosed k (onsessioninitialized t k st) = st)
   \<and> known (onsessionclosed k st) (Some k) = known (st\<lparr>transports := Map.empty\<rparr>) (Some k)
   \<and> (k \<notin> set Object_prototype \<longrightarrow>
        ensureTransport (onsessionclosed k st) (Some k)
          = (TransportObj (constructed st), (onsessionclosed k st)\<lparr>constructed := constructed st + 1\<rparr>)
        \<and> handleSession (onsessionclosed k st) (Some k)
          = (Sent 400 ''Invalid session'', onsessionclosed k st))
   \<and> (transports st k = None \<longrightarrow> onsessionclosed k st = st)
   \<and> onsessionclosed k (onsessionclosed k st) = onsessionclosed k st"
proof (intro conjI allI impI)
  fix t
  assume "transports st k = None"
  then show "onsessionclosed k (onsessioninitialized t k st) = st"
    by (simp add: onsessionclosed_def onsessioninitialized_def fun_upd_idem)
next
  show "known (onsessionclosed k st) (Some k) = known (st\<lparr>transports := Map.empty\<rparr>) (Some k)"
    by (simp add: known_def onsessionclosed_def get_property_def)
next
  assume k: "k \<notin> set Object_prototype"
  then have "known (onsessionclosed k st) (Some k) = None"
    by (simp add: known_def onsessionclosed_def get_property_def)
  then show "ensureTransport (onsessionclosed k st) (Some k)
      = (TransportObj (constructed st), (onsessionclosed k st)\<lparr>constructed := constructed st + 1\<rparr>)"
    and "handleSession (onsessionclosed k st) (Some k) = (Sent 400 ''Invalid session'', onsessionclosed k st)"
    by (simp_all add: ensureTransport_def handleSession_def onsessionclosed_def)
next
  assume "transports st k = None"
  then show "onsessionclosed k st = st" by (rule onsessionclosed_unknown)
next
  show "onsessionclosed k (onsessionclosed k st) = onsessionclosed k st"
    by (simp add: onsessionclosed_def)
qed

theorem release_then_resolve_witness:
  "transports \<lparr>transports = Map.empty, constructed = 1\<rparr> ''6f1c'' = None
   \<and> ''6f1c'' \<notin> set Object_prototype
   \<and> onsessionclosed ''6f1c'' (onsessioninitialized 0 ''6f1c'' \<lparr>transports = Map.empty, constructed = 1\<rparr>)
       = \<lparr>transports = Map.empty, constructed = 1\<rparr>
   \<and> onsessionclosed ''6f1c'' \<lparr>transports = Map.empty, constructed = 1\<rparr>
       = \<lparr>transports = Map.empty, constructed = 1\<rparr>
   \<and> fst (ensureTransport (onsessionclosed ''6f1c'' \<lparr>transports = [''6f1c'' \<mapsto> 0], constructed = 1\<rparr>) (Some ''6f1c''))
       = TransportObj 1
   \<and> fst (handleSession (onsessionclosed ''6f1c'' \<lparr>transports = [''6f1c'' \<mapsto> 0], constructed = 1\<rparr>) (Some ''6f1c''))
       = Sent 400 ''Invalid session''"
proof -
  let ?st = "\<lparr>transports = Map.empty, constructed = 1\<rparr>"
  let ?st1 = "\<lparr>transports = [''6f1c'' \<mapsto> 0::nat], constructed = 1\<rparr>"
  have h1: "transports ?st ''6f1c'' = None" by simp
  have h2: "''6f1c'' \<notin> set Object_prototype" by (simp add: Object_prototype_def)
  note a = release_then_resolve[of ?st "''6f1c''"]
  note b = release_then_resolve[of ?st1 "''6f1c''"]
  from a h1 have "onsessionclosed ''6f1c'' (onsessioninitialized 0 ''6f1c'' ?st) = ?st"
    and "onsessionclosed ''6f1c'' ?st = ?st" by blast+
  moreover from b h2 have "fst (ensureTransport (onsessionclosed ''6f1c'' ?st1) (Some ''6f1c'')) = TransportObj 1"
    and "fst (handleSession (onsessionclosed ''6f1c'' ?st1) (Some ''6f1c'')) = Sent 400 ''Invalid session''"
    by simp_all
  ultimately show ?thesis using h1 h2 by blast
qed

text \<open>
  C6. A DELETE that presents the session id \<^verbatim>\<open>constructor\<close>, which no session has,
  is not answered with 400: \<^verbatim>\<open>transports["constructor"]\<close> is the inherited
  \<^verbatim>\<open>Object\<close> function, which is truthy, and calling its missing
  \<^verbatim>\<open>handleRequest\<close> throws a TypeError. No entry is created.
\<close>

theorem inherited_name_not_rejected:
  "serve DELETE \<lparr>transports = Map.empty, constructed = 0\<rparr> (Some ''constructor'')
     = Some (TypeError, \<lparr>transports = Map.empty, constructed = 0\<rparr>)"
  by (simp add: serve_def routes_def handleSession_def known_def get_property_def
      Object_prototype_def call_handleRequest_def)

end
